theory Spec2Isabelle
  imports Main "HOL-Library.Word"
begin

section \<open>JavaScript strings and bytes\<close>

text \<open>
  A JavaScript string is a sequence of 16-bit code units; a \<^verbatim>\<open>Uint8Array\<close> is a
  sequence of bytes. String literals of the source are written \<open>js ''...''\<close>.
\<close>

type_synonym code_unit = "16 word"
type_synonym js_string = "code_unit list"
type_synonym byte = "8 word"

definition js :: "string \<Rightarrow> js_string" where
  "js s = map of_char s"

text \<open>The errors that can be raised: the platform's \<^verbatim>\<open>InvalidCharacterError\<close>
  (from \<^verbatim>\<open>btoa\<close>, \<^verbatim>\<open>atob\<close> and \<^verbatim>\<open>createElement\<close>), the two errors the codec throws
  from its \<^verbatim>\<open>catch\<close> blocks, and the engine's \<^verbatim>\<open>TypeError\<close>.\<close>

datatype error =
    InvalidCharacterError
  | CompressFailed      \<comment> \<open>\<^verbatim>\<open>new Error('Failed to compress content')\<close>\<close>
  | DecompressFailed    \<comment> \<open>\<^verbatim>\<open>new Error('Failed to decompress content')\<close>\<close>
  | TypeError           \<comment> \<open>thrown by the engine, for instance on calling \<^verbatim>\<open>undefined\<close>\<close>

section \<open>The platform's Base64 primitives\<close>

text \<open>
  \<^verbatim>\<open>btoa\<close> and \<^verbatim>\<open>atob\<close> are provided by the host. They are modelled after the
  algorithms the HTML and Infra standards give for them: \<^verbatim>\<open>btoa\<close> throws on a code unit
  above 0xFF and otherwise applies the Base64 encoding of RFC 4648 to the code units
  read as bytes; \<^verbatim>\<open>atob\<close> is the forgiving-base64 decode.
\<close>

definition base64_alphabet :: js_string where
  "base64_alphabet =
     js ''ABCDEFGHIJKLMNOPQRSTUVWXYZabcdefghijklmnopqrstuvwxyz0123456789+/''"

definition sextet_char :: "nat \<Rightarrow> code_unit" where
  "sextet_char i = base64_alphabet ! i"

text \<open>RFC 4648, section 4: three bytes give four characters; one or two remaining bytes
  give two or three characters and padding.\<close>

fun base64_encode :: "nat list \<Rightarrow> js_string" where
  "base64_encode (a # b # c # rest) =
     sextet_char (a div 4) # sextet_char ((a mod 4) * 16 + b div 16) #
     sextet_char ((b mod 16) * 4 + c div 64) # sextet_char (c mod 64) #
     base64_encode rest"
| "base64_encode [a, b] =
     [sextet_char (a div 4), sextet_char ((a mod 4) * 16 + b div 16),
      sextet_char ((b mod 16) * 4), of_char CHR ''='']"
| "base64_encode [a] =
     [sextet_char (a div 4), sextet_char ((a mod 4) * 16),
      of_char CHR ''='', of_char CHR ''='']"
| "base64_encode [] = []"

definition btoa :: "js_string \<Rightarrow> error + js_string" where
  "btoa data =
     (if \<exists>c \<in> set data. 0xFF < c then Inl InvalidCharacterError
      else Inr (base64_encode (map unat data)))"

text \<open>The position of a character in the alphabet (the second column of Table 1 of
  RFC 4648).\<close>

fun index_of :: "'a list \<Rightarrow> 'a \<Rightarrow> nat" where
  "index_of [] x = 0"
| "index_of (y # ys) x = (if x = y then 0 else Suc (index_of ys x))"

definition char_sextet :: "code_unit \<Rightarrow> nat" where
  "char_sextet c = index_of base64_alphabet c"

definition is_ascii_whitespace :: "code_unit \<Rightarrow> bool" where
  "is_ascii_whitespace c \<longleftrightarrow> c = 0x09 \<or> c = 0x0A \<or> c = 0x0C \<or> c = 0x0D \<or> c = 0x20"

text \<open>Step 2 of forgiving-base64 decode: when the length is a multiple of four, one or
  two trailing \<^verbatim>\<open>=\<close> are removed.\<close>

definition remove_padding :: "js_string \<Rightarrow> js_string" where
  "remove_padding d =
     (if length d mod 4 \<noteq> 0 then d
      else if 2 \<le> length d \<and> drop (length d - 2) d = js ''=='' then take (length d - 2) d
      else if 1 \<le> length d \<and> drop (length d - 1) d = js ''='' then take (length d - 1) d
      else d)"

text \<open>Steps 5 to 9: every character appends six bits to a buffer; 24 bits are emitted as
  three bytes; 12 remaining bits give one byte (the last four discarded), 18 give two
  (the last two discarded).\<close>

fun decode_sextets :: "nat list \<Rightarrow> nat list" where
  "decode_sextets (a # b # c # d # rest) =
     (a * 4 + b div 16) # ((b mod 16) * 16 + c div 4) # ((c mod 4) * 64 + d) #
     decode_sextets rest"
| "decode_sextets [a, b, c] = [a * 4 + b div 16, (b mod 16) * 16 + c div 4]"
| "decode_sextets [a, b] = [a * 4 + b div 16]"
| "decode_sextets [a] = []"
| "decode_sextets [] = []"

definition atob :: "js_string \<Rightarrow> error + js_string" where
  "atob data =
     (let d = remove_padding (filter (\<lambda>c. \<not> is_ascii_whitespace c) data) in
      if length d mod 4 = 1 then Inl InvalidCharacterError
      else if \<exists>c \<in> set d. c \<notin> set base64_alphabet then Inl InvalidCharacterError
      else Inr (map of_nat (decode_sextets (map char_sextet d))))"

section \<open>compression.js: the Base64 helpers\<close>

text \<open>\<^verbatim>\<open>arrayBufferToBase64\<close>: each byte becomes one code unit
  (\<^verbatim>\<open>String.fromCharCode(bytes[i])\<close>), and the string goes through \<^verbatim>\<open>btoa\<close>.\<close>

definition arrayBufferToBase64 :: "byte list \<Rightarrow> error + js_string" where
  "arrayBufferToBase64 bytes = btoa (map ucast bytes)"

text \<open>\<^verbatim>\<open>base64ToArrayBuffer\<close>: \<^verbatim>\<open>atob\<close>, then each code unit is stored into a
  \<^verbatim>\<open>Uint8Array\<close> (a store keeps the low eight bits).\<close>

definition base64ToArrayBuffer :: "js_string \<Rightarrow> error + byte list" where
  "base64ToArrayBuffer base64 =
     (case atob base64 of
        Inl e \<Rightarrow> Inl e
      | Inr binary \<Rightarrow> Inr (map ucast binary))"

section \<open>The platform's text encoding\<close>

text \<open>
  \<^verbatim>\<open>TextEncoder.encode\<close> first converts the string to a sequence of Unicode scalar
  values (a surrogate pair becomes one code point, an unpaired surrogate becomes U+FFFD),
  then encodes it in UTF-8. Code points are natural numbers.
\<close>

definition is_leading_surrogate :: "code_unit \<Rightarrow> bool" where
  "is_leading_surrogate c \<longleftrightarrow> 0xD800 \<le> c \<and> c \<le> 0xDBFF"

definition is_trailing_surrogate :: "code_unit \<Rightarrow> bool" where
  "is_trailing_surrogate c \<longleftrightarrow> 0xDC00 \<le> c \<and> c \<le> 0xDFFF"

definition is_surrogate :: "code_unit \<Rightarrow> bool" where
  "is_surrogate c \<longleftrightarrow> is_leading_surrogate c \<or> is_trailing_surrogate c"

definition surrogate_pair :: "code_unit \<Rightarrow> code_unit \<Rightarrow> nat" where
  "surrogate_pair c d = 0x10000 + (unat c - 0xD800) * 0x400 + (unat d - 0xDC00)"

fun to_scalar_values :: "js_string \<Rightarrow> nat list" where
  "to_scalar_values (c # d # ds) =
     (if is_leading_surrogate c \<and> is_trailing_surrogate d
        then surrogate_pair c d # to_scalar_values ds
      else if is_surrogate c then 0xFFFD # to_scalar_values (d # ds)
      else unat c # to_scalar_values (d # ds))"
| "to_scalar_values [c] = (if is_surrogate c then [0xFFFD] else [unat c])"
| "to_scalar_values [] = []"

definition utf8_encode_code_point :: "nat \<Rightarrow> byte list" where
  "utf8_encode_code_point cp =
     (if cp < 0x80 then [of_nat cp]
      else if cp < 0x800 then [of_nat (0xC0 + cp div 0x40), of_nat (0x80 + cp mod 0x40)]
      else if cp < 0x10000 then
        [of_nat (0xE0 + cp div 0x1000), of_nat (0x80 + cp div 0x40 mod 0x40),
         of_nat (0x80 + cp mod 0x40)]
      else
        [of_nat (0xF0 + cp div 0x40000), of_nat (0x80 + cp div 0x1000 mod 0x40),
         of_nat (0x80 + cp div 0x40 mod 0x40), of_nat (0x80 + cp mod 0x40)])"

definition utf8_encode :: "nat list \<Rightarrow> byte list" where
  "utf8_encode cps = concat (map utf8_encode_code_point cps)"

definition TextEncoder_encode :: "js_string \<Rightarrow> byte list" where
  "TextEncoder_encode text = utf8_encode (to_scalar_values text)"

text \<open>
  \<^verbatim>\<open>Response.text()\<close> runs the Encoding standard's ``UTF-8 decode'': a leading byte
  order mark EF BB BF is dropped, then the UTF-8 decoder runs with replacement as error
  mode. The decoder's state is the standard's: code point, bytes seen, bytes needed, and
  the bounds of the next continuation byte.
\<close>

record utf8_decoder_state =
  code_point :: nat
  bytes_seen :: nat
  bytes_needed :: nat
  lower_boundary :: nat
  upper_boundary :: nat

definition utf8_initial :: utf8_decoder_state where
  "utf8_initial =
     \<lparr>code_point = 0, bytes_seen = 0, bytes_needed = 0,
      lower_boundary = 0x80, upper_boundary = 0xBF\<rparr>"

function utf8_decoder :: "utf8_decoder_state \<Rightarrow> byte list \<Rightarrow> nat list" where
  "utf8_decoder st [] = (if bytes_needed st \<noteq> 0 then [0xFFFD] else [])"
| "utf8_decoder st (b # bs) =
     (let n = unat b in
      if bytes_needed st = 0 then
        if n \<le> 0x7F then n # utf8_decoder st bs
        else if 0xC2 \<le> n \<and> n \<le> 0xDF then
          utf8_decoder (st\<lparr>bytes_needed := 1, code_point := n mod 0x20\<rparr>) bs
        else if 0xE0 \<le> n \<and> n \<le> 0xEF then
          utf8_decoder
            (st\<lparr>lower_boundary := (if n = 0xE0 then 0xA0 else lower_boundary st),
                upper_boundary := (if n = 0xED then 0x9F else upper_boundary st),
                bytes_needed := 2, code_point := n mod 0x10\<rparr>) bs
        else if 0xF0 \<le> n \<and> n \<le> 0xF4 then
          utf8_decoder
            (st\<lparr>lower_boundary := (if n = 0xF0 then 0x90 else lower_boundary st),
                upper_boundary := (if n = 0xF4 then 0x8F else upper_boundary st),
                bytes_needed := 3, code_point := n mod 0x8\<rparr>) bs
        else 0xFFFD # utf8_decoder st bs
      else if \<not> (lower_boundary st \<le> n \<and> n \<le> upper_boundary st) then
        0xFFFD # utf8_decoder utf8_initial (b # bs)
      else if bytes_seen st + 1 \<noteq> bytes_needed st then
        utf8_decoder
          (st\<lparr>lower_boundary := 0x80, upper_boundary := 0xBF,
              code_point := code_point st * 0x40 + n mod 0x40,
              bytes_seen := bytes_seen st + 1\<rparr>) bs
      else (code_point st * 0x40 + n mod 0x40) # utf8_decoder utf8_initial bs)"
  by pat_completeness auto
termination
  apply (relation "measure (\<lambda>(st, bs). 2 * length bs + (if bytes_needed st = 0 then 0 else 1))")
  apply simp_all
  apply (simp_all add: utf8_initial_def)
  done

declare utf8_decoder.simps [simp del]

definition utf8_decode :: "byte list \<Rightarrow> nat list" where
  "utf8_decode bytes =
     utf8_decoder utf8_initial
       (if take 3 bytes = [0xEF, 0xBB, 0xBF] then drop 3 bytes else bytes)"

text \<open>The decoded scalar values as a JavaScript string: a code point above U+FFFF is a
  surrogate pair.\<close>

definition utf16_encode_code_point :: "nat \<Rightarrow> js_string" where
  "utf16_encode_code_point cp =
     (if cp < 0x10000 then [of_nat cp]
      else [of_nat (0xD800 + (cp - 0x10000) div 0x400),
            of_nat (0xDC00 + (cp - 0x10000) mod 0x400)])"

definition Response_text :: "byte list \<Rightarrow> js_string" where
  "Response_text bytes = concat (map utf16_encode_code_point (utf8_decode bytes))"

section \<open>compression.js: compress and decompress\<close>

text \<open>
  The gzip stages (\<^verbatim>\<open>CompressionStream('gzip')\<close>, \<^verbatim>\<open>DecompressionStream('gzip')\<close>)
  belong to the host; they are parameters \<open>gzip\<close> and \<open>gunzip\<close> of the model, with
  \<open>None\<close> for a stream that errors. A promise that resolves is \<open>Inr\<close>, one that rejects
  is \<open>Inl\<close>.
\<close>

text \<open>\<^verbatim>\<open>.replace(/\+/g, '-').replace(/\//g, '_')\<close> and back.\<close>

definition to_url_safe :: "js_string \<Rightarrow> js_string" where
  "to_url_safe s =
     map (\<lambda>c. if c = of_char CHR ''/'' then of_char CHR ''_'' else c)
       (map (\<lambda>c. if c = of_char CHR ''+'' then of_char CHR ''-'' else c) s)"

definition from_url_safe :: "js_string \<Rightarrow> js_string" where
  "from_url_safe s =
     map (\<lambda>c. if c = of_char CHR ''_'' then of_char CHR ''/'' else c)
       (map (\<lambda>c. if c = of_char CHR ''-'' then of_char CHR ''+'' else c) s)"

text \<open>\<^verbatim>\<open>.replace(/=+$/, '')\<close>: the leftmost position from which the rest of the string is
  a non-empty run of \<^verbatim>\<open>=\<close> is where the match starts; the match is removed.\<close>

fun strip_trailing_equals :: "js_string \<Rightarrow> js_string" where
  "strip_trailing_equals [] = []"
| "strip_trailing_equals (c # cs) =
     (if list_all (\<lambda>x. x = of_char CHR ''='') (c # cs) then []
      else c # strip_trailing_equals cs)"

definition compress ::
  "(byte list \<Rightarrow> byte list option) \<Rightarrow> js_string \<Rightarrow> error + js_string" where
  "compress gzip text =
     (if text = [] then Inr []
      else
        (case gzip (TextEncoder_encode text) of
           None \<Rightarrow> Inl CompressFailed
         | Some compressedBytes \<Rightarrow>
             (case arrayBufferToBase64 compressedBytes of
                Inl e \<Rightarrow> Inl CompressFailed
              | Inr base64 \<Rightarrow> Inr (strip_trailing_equals (to_url_safe base64)))))"

text \<open>\<^verbatim>\<open>while (standardBase64.length % 4) standardBase64 += '='\<close>\<close>

function add_padding :: "js_string \<Rightarrow> js_string" where
  "add_padding s = (if length s mod 4 \<noteq> 0 then add_padding (s @ js ''='') else s)"
  by pat_completeness auto
termination
proof (relation "measure (\<lambda>s. (4 - length s mod 4) mod 4)")
  show "wf (measure (\<lambda>s :: js_string. (4 - length s mod 4) mod 4))"
    by (rule wf_measure)
next
  fix s :: js_string
  assume nz: "length s mod 4 \<noteq> 0"
  have len: "length (s @ js ''='') = Suc (length s)"
    by (simp add: js_def)
  have suc: "Suc (length s) mod 4 = Suc (length s mod 4) mod 4"
    by (simp add: mod_Suc_eq)
  have "length s mod 4 < 4" by simp
  with nz consider "length s mod 4 = 1" | "length s mod 4 = 2" | "length s mod 4 = 3"
    by linarith
  then have "(4 - Suc (length s) mod 4) mod 4 < (4 - length s mod 4) mod 4"
    by cases (simp_all add: suc)
  then show "(s @ js ''='', s) \<in> measure (\<lambda>s. (4 - length s mod 4) mod 4)"
    by (simp only: in_measure len)
qed

declare add_padding.simps [simp del]

definition decompress ::
  "(byte list \<Rightarrow> byte list option) \<Rightarrow> js_string \<Rightarrow> error + js_string" where
  "decompress gunzip base64 =
     (if base64 = [] then Inr []
      else
        (case base64ToArrayBuffer (add_padding (from_url_safe base64)) of
           Inl e \<Rightarrow> Inl DecompressFailed
         | Inr compressedBytes \<Rightarrow>
             (case gunzip compressedBytes of
                None \<Rightarrow> Inl DecompressFailed
              | Some decompressed \<Rightarrow> Inr (Response_text decompressed))))"

section \<open>Vocabulary of the claims\<close>

text \<open>The URL-fragment-safe alphabet of share tokens.\<close>

definition token_alphabet :: js_string where
  "token_alphabet =
     js ''ABCDEFGHIJKLMNOPQRSTUVWXYZabcdefghijklmnopqrstuvwxyz0123456789-_''"

text \<open>Unicode scalar values: code points that are not surrogates.\<close>

definition is_scalar_value :: "nat \<Rightarrow> bool" where
  "is_scalar_value c \<longleftrightarrow> c < 0x110000 \<and> \<not> (0xD800 \<le> c \<and> c \<le> 0xDFFF)"

text \<open>\<^verbatim>\<open>String.prototype.isWellFormed\<close>: the string has no unpaired surrogate.\<close>

fun isWellFormed :: "js_string \<Rightarrow> bool" where
  "isWellFormed (c # d # ds) =
     (if is_leading_surrogate c \<and> is_trailing_surrogate d then isWellFormed ds
      else \<not> is_surrogate c \<and> isWellFormed (d # ds))"
| "isWellFormed [c] = (\<not> is_surrogate c)"
| "isWellFormed [] = True"

text \<open>A stand-in for the host's gzip stages in closed examples: the compressing stage
  puts the two gzip magic bytes in front of the data, the decompressing stage accepts
  exactly such streams. It is lossless and never produces an empty stream, which is all
  the examples need of it.\<close>

definition example_gzip :: "byte list \<Rightarrow> byte list option" where
  "example_gzip b = Some (0x1F # 0x8B # b)"

fun example_gunzip :: "byte list \<Rightarrow> byte list option" where
  "example_gunzip (a # b # rest) = (if a = 0x1F \<and> b = 0x8B then Some rest else None)"
| "example_gunzip _ = None"

section \<open>JavaScript values, regular expressions of the sanitizer\<close>

text \<open>What a caller can pass to \<^verbatim>\<open>sanitize\<close>: a string, \<^verbatim>\<open>undefined\<close> (an absent
  argument), \<^verbatim>\<open>null\<close>, or any other value (number, boolean, object, ...), for which
  \<^verbatim>\<open>typeof\<close> is not \<^verbatim>\<open>'string'\<close>.\<close>

datatype js_value = JSUndefined | JSNull | JSString js_string | JSOther

definition ascii_upper :: "code_unit \<Rightarrow> code_unit" where
  "ascii_upper c = (if 0x61 \<le> c \<and> c \<le> 0x7A then c - 0x20 else c)"

definition ascii_lower :: "code_unit \<Rightarrow> code_unit" where
  "ascii_lower c = (if 0x41 \<le> c \<and> c \<le> 0x5A then c + 0x20 else c)"

text \<open>
  The patterns of \<^verbatim>\<open>DANGEROUS_PATTERNS\<close> carry the flags \<^verbatim>\<open>gi\<close> and not \<^verbatim>\<open>u\<close>. Without
  \<^verbatim>\<open>u\<close>, case-insensitive matching compares the upper-case forms of single code units
  and never lets a code unit outside ASCII match an ASCII one; so a pattern letter
  matches exactly its two ASCII forms, \<^verbatim>\<open>\w\<close> is \<^verbatim>\<open>[A-Za-z0-9_]\<close>, and \<^verbatim>\<open>\s\<close> is the
  white space and line terminators of ECMAScript.

  A matcher gets the input from the position where a match is tried and returns the
  input after the match, or \<open>None\<close>.
\<close>

fun match_literal :: "js_string \<Rightarrow> js_string \<Rightarrow> js_string option" where
  "match_literal [] s = Some s"
| "match_literal (p # ps) [] = None"
| "match_literal (p # ps) (c # cs) =
     (if ascii_upper c = ascii_upper p then match_literal ps cs else None)"

definition is_word_char :: "code_unit \<Rightarrow> bool" where
  "is_word_char c \<longleftrightarrow>
     (0x41 \<le> c \<and> c \<le> 0x5A) \<or> (0x61 \<le> c \<and> c \<le> 0x7A) \<or> (0x30 \<le> c \<and> c \<le> 0x39) \<or> c = 0x5F"

definition is_js_whitespace :: "code_unit \<Rightarrow> bool" where
  "is_js_whitespace c \<longleftrightarrow>
     c \<in> {0x09, 0x0A, 0x0B, 0x0C, 0x0D, 0x20, 0xA0, 0x1680, 0x2028, 0x2029, 0x202F,
          0x205F, 0x3000, 0xFEFF} \<or> (0x2000 \<le> c \<and> c \<le> 0x200A)"

text \<open>
  \<^verbatim>\<open>/<script\b[^<]*(?:(?!<\/script>)<[^<]*)*<\/script>/gi\<close>. After \<^verbatim>\<open><script\<close> and the word
  boundary, \<^verbatim>\<open>[^<]*\<close> runs to the next \<^verbatim>\<open><\<close>; there the group iterates exactly when
  \<^verbatim>\<open></script>\<close> does not follow, and the final \<^verbatim>\<open><\/script>\<close> matches exactly when it
  does. Backtracking never finds another match: giving back characters of \<^verbatim>\<open>[^<]*\<close>
  leaves the matcher before a character that is not \<^verbatim>\<open><\<close>. So the match ends with the
  first \<^verbatim>\<open></script>\<close> after the opening, and fails when there is none.
\<close>

fun script_block_end :: "js_string \<Rightarrow> js_string option" where
  "script_block_end [] = None"
| "script_block_end (c # cs) =
     (if c = of_char CHR ''<'' then
        (case match_literal (js ''</script>'') (c # cs) of
           Some rest \<Rightarrow> Some rest
         | None \<Rightarrow> script_block_end cs)
      else script_block_end cs)"

definition match_script_block :: "js_string \<Rightarrow> js_string option" where
  "match_script_block s =
     (case match_literal (js ''<script'') s of
        None \<Rightarrow> None
      | Some rest \<Rightarrow>
          (case rest of
             [] \<Rightarrow> None
           | c # cs \<Rightarrow> if is_word_char c then None else script_block_end rest))"

text \<open>
  \<^verbatim>\<open>/on\w+\s*=/gi\<close>: \<^verbatim>\<open>on\<close>, the longest non-empty run of word characters, the
  longest run of white space, then \<^verbatim>\<open>=\<close>. Again backtracking cannot help: a shorter
  run would have to be followed by \<^verbatim>\<open>=\<close> where a word or white-space character stands.
\<close>

definition match_event_handler :: "js_string \<Rightarrow> js_string option" where
  "match_event_handler s =
     (case match_literal (js ''on'') s of
        None \<Rightarrow> None
      | Some rest \<Rightarrow>
          if takeWhile is_word_char rest = [] then None
          else
            (case dropWhile is_js_whitespace (dropWhile is_word_char rest) of
               [] \<Rightarrow> None
             | c # cs \<Rightarrow> if c = of_char CHR ''='' then Some cs else None))"

text \<open>
  \<^verbatim>\<open>String.prototype.replace\<close> with a global pattern and the replacement \<^verbatim>\<open>''\<close>: matches
  are sought from left to right; a match is removed and the search goes on after it;
  where there is no match the character is kept. (An empty match keeps the character and
  moves on by one; none of the patterns here matches the empty string.)
\<close>

function replace_all :: "(js_string \<Rightarrow> js_string option) \<Rightarrow> js_string \<Rightarrow> js_string" where
  "replace_all m [] = []"
| "replace_all m (c # cs) =
     (case m (c # cs) of
        None \<Rightarrow> c # replace_all m cs
      | Some rest \<Rightarrow>
          if length rest < length (c # cs) then replace_all m rest
          else c # replace_all m cs)"
  by pat_completeness auto
termination
  by (relation "measure (\<lambda>(m, s). length s)") simp_all

definition remove_dangerous_patterns :: "js_string \<Rightarrow> js_string" where
  "remove_dangerous_patterns html =
     replace_all (match_literal (js ''vbscript:''))
       (replace_all (match_literal (js ''data:''))
         (replace_all match_event_handler
           (replace_all (match_literal (js ''javascript:''))
             (replace_all match_script_block html))))"

section \<open>The document tree\<close>

text \<open>
  The objects \<^verbatim>\<open>cleanNode\<close> meets. \<open>Text\<close>, \<open>Element\<close> (qualified name as serialized,
  attributes in order, child nodes) and \<open>Comment\<close> are the nodes an HTML document holds
  below its body; \<open>Element\<close> stands for every element but \<^verbatim>\<open>form\<close>. The child nodes are
  what \<^verbatim>\<open>childNodes\<close> lists: the contents of a \<^verbatim>\<open>template\<close> element are not among them.

  \<^verbatim>\<open>HTMLFormElement\<close> is declared \<^verbatim>\<open>[LegacyOverrideBuiltIns]\<close>: a property read on a form
  yields the control of the form that has the property's name as its \<^verbatim>\<open>name\<close> or \<^verbatim>\<open>id\<close>,
  when there is one, ahead of the property the form inherits from \<^verbatim>\<open>Node\<close> or
  \<^verbatim>\<open>Element\<close>. \<open>Form attrs children sn st sc\<close> is a form element together with what its
  controls shadow of the three properties the code reads:
  \<^item> \<open>sn\<close>: a control is named \<^verbatim>\<open>nodeType\<close>;
  \<^item> \<open>st\<close>: a control is named \<^verbatim>\<open>tagName\<close>;
  \<^item> \<open>sc\<close>: \<open>None\<close> when no control is named \<^verbatim>\<open>childNodes\<close>, and otherwise the array
    that \<^verbatim>\<open>Array.from\<close> makes of the value read: the members when several controls share
    the name (the value is a \<^verbatim>\<open>RadioNodeList\<close>), the options when the control is a
    \<^verbatim>\<open>select\<close>, and nothing for any other control, which is not iterable and has no
    \<^verbatim>\<open>length\<close>.

  \<^verbatim>\<open>Document\<close> is declared \<^verbatim>\<open>[LegacyOverrideBuiltIns]\<close> as well: when one \<^verbatim>\<open>img\<close>,
  \<^verbatim>\<open>form\<close>, \<^verbatim>\<open>embed\<close>, \<^verbatim>\<open>iframe\<close> or \<^verbatim>\<open>object\<close> of the document is named \<^verbatim>\<open>body\<close>,
  \<^verbatim>\<open>doc.body\<close> is that element, and when several are, it is an \<^verbatim>\<open>HTMLCollection\<close>.
  \<open>Collection c\<close> is such a collection; \<open>c\<close> is what \<^verbatim>\<open>Array.from\<close> makes of its property
  \<^verbatim>\<open>childNodes\<close>: \<open>None\<close> when the property is \<^verbatim>\<open>undefined\<close> (no member of the collection
  is named \<^verbatim>\<open>childNodes\<close>), on which \<^verbatim>\<open>Array.from\<close> throws.
\<close>

datatype node =
    Text js_string
  | Element js_string "(js_string \<times> js_string) list" "node list"
  | Form "(js_string \<times> js_string) list" "node list" bool bool "node list option"
  | Comment js_string
  | Collection "node list option"

text \<open>\<^verbatim>\<open>Node.TEXT_NODE\<close> and \<^verbatim>\<open>Node.ELEMENT_NODE\<close>.\<close>

definition TEXT_NODE :: nat where
  "TEXT_NODE = 3"

definition ELEMENT_NODE :: nat where
  "ELEMENT_NODE = 1"

text \<open>The property read \<^verbatim>\<open>child.nodeType\<close>: the number, or \<open>None\<close> when the value read is
  not a number (the control of a form that is named \<^verbatim>\<open>nodeType\<close>), and so is strictly
  equal to neither constant.\<close>

fun nodeType :: "node \<Rightarrow> nat option" where
  "nodeType (Text t) = Some 3"
| "nodeType (Element name attrs children) = Some 1"
| "nodeType (Form attrs children sn st sc) = (if sn then None else Some 1)"
| "nodeType (Comment t) = Some 8"
| "nodeType (Collection c) = None"

text \<open>The property read \<^verbatim>\<open>child.tagName\<close>: for an HTML element of an HTML document the
  qualified name in ASCII upper case, and \<open>None\<close> when the value read is not a string:
  the control of a form that is named \<^verbatim>\<open>tagName\<close>, or \<^verbatim>\<open>undefined\<close>. Such a value has no
  method \<^verbatim>\<open>toLowerCase\<close>, and the call at line 84 throws a \<^verbatim>\<open>TypeError\<close>.\<close>

fun tagName :: "node \<Rightarrow> js_string option" where
  "tagName (Element name attrs children) = Some (map ascii_upper name)"
| "tagName (Form attrs children sn st sc) = (if st then None else Some (js ''FORM''))"
| "tagName _ = None"

text \<open>\<^verbatim>\<open>Array.from(node.childNodes)\<close>: the child nodes, or what the control of a form that
  is named \<^verbatim>\<open>childNodes\<close> gives; \<open>None\<close> when \<^verbatim>\<open>Array.from\<close> throws a \<^verbatim>\<open>TypeError\<close>.\<close>

fun childNodes :: "node \<Rightarrow> node list option" where
  "childNodes (Element name attrs children) = Some children"
| "childNodes (Form attrs children sn st sc) =
     (case sc of None \<Rightarrow> Some children | Some controls \<Rightarrow> Some controls)"
| "childNodes (Collection c) = c"
| "childNodes _ = Some []"

text \<open>The text nodes of a tree, in document order.\<close>

fun text_nodes :: "node \<Rightarrow> js_string list" where
  "text_nodes (Text t) = [t]"
| "text_nodes (Element name attrs children) = concat (map text_nodes children)"
| "text_nodes (Form attrs children sn st sc) = concat (map text_nodes children)"
| "text_nodes _ = []"

text \<open>\<^verbatim>\<open>Node.textContent\<close>, which the code reads on text nodes only: the data of a text
  node or comment, the text below an element.\<close>

fun textContent :: "node \<Rightarrow> js_string" where
  "textContent (Text t) = t"
| "textContent (Comment t) = t"
| "textContent n = concat (text_nodes n)"

fun getAttribute :: "node \<Rightarrow> js_string \<Rightarrow> js_string option" where
  "getAttribute (Element name attrs children) attr = map_of attrs attr"
| "getAttribute (Form attrs children sn st sc) attr = map_of attrs attr"
| "getAttribute _ attr = None"

text \<open>
  \<^verbatim>\<open>document\<close> is the document of the page, whose methods are the platform's.
  \<^verbatim>\<open>document.createElement\<close> throws \<^verbatim>\<open>InvalidCharacterError\<close> on a name that is not a
  valid element name, and creates an element with the name in ASCII lower case
  otherwise. The model accepts the names made of an ASCII letter followed by ASCII
  letters and digits, which every edition of the DOM standard accepts, and throws on
  every other name: it throws at least where the platform does.
\<close>

definition is_ascii_alpha :: "code_unit \<Rightarrow> bool" where
  "is_ascii_alpha c \<longleftrightarrow> (0x41 \<le> c \<and> c \<le> 0x5A) \<or> (0x61 \<le> c \<and> c \<le> 0x7A)"

definition is_ascii_alphanumeric :: "code_unit \<Rightarrow> bool" where
  "is_ascii_alphanumeric c \<longleftrightarrow> is_ascii_alpha c \<or> (0x30 \<le> c \<and> c \<le> 0x39)"

definition createElement :: "js_string \<Rightarrow> error + node" where
  "createElement name =
     (case name of
        [] \<Rightarrow> Inl InvalidCharacterError
      | c # cs \<Rightarrow>
          if is_ascii_alpha c \<and> list_all is_ascii_alphanumeric cs
          then Inr (Element (map ascii_lower name) [] [])
          else Inl InvalidCharacterError)"

definition createTextNode :: "js_string \<Rightarrow> node" where
  "createTextNode t = Text t"

text \<open>\<^verbatim>\<open>parent.appendChild(child)\<close> for a freshly created child, and for a document
  fragment, whose children are moved into the parent. Neither can throw here: the parent
  is an element that \<^verbatim>\<open>createElement\<close> made and the child a new text node, element or
  fragment.\<close>

fun appendChild :: "node \<Rightarrow> node \<Rightarrow> node" where
  "appendChild (Element name attrs children) child = Element name attrs (children @ [child])"
| "appendChild parent child = parent"

fun appendFragment :: "node \<Rightarrow> node list \<Rightarrow> node" where
  "appendFragment (Element name attrs children) fragment = Element name attrs (children @ fragment)"
| "appendFragment parent fragment = parent"

fun setAttribute :: "node \<Rightarrow> js_string \<Rightarrow> js_string \<Rightarrow> node" where
  "setAttribute (Element name attrs children) attr v =
     Element name
       (if attr \<in> fst ` set attrs
        then map (\<lambda>(a, x). if a = attr then (a, v) else (a, x)) attrs
        else attrs @ [(attr, v)])
       children"
| "setAttribute n attr v = n"

section \<open>sanitizer.js\<close>

definition ALLOWED_TAGS :: "js_string list" where
  "ALLOWED_TAGS =
     map js [''p'', ''br'', ''div'', ''span'', ''b'', ''strong'', ''i'', ''em'', ''u'',
             ''h1'', ''h2'', ''h3'', ''ul'', ''ol'', ''li'', ''blockquote'']"

text \<open>\<^verbatim>\<open>ALLOWED_ATTRIBUTES\<close> is the empty object; it is only ever indexed with a tag of
  \<^verbatim>\<open>ALLOWED_TAGS\<close>, none of which names a property of \<^verbatim>\<open>Object.prototype\<close>.\<close>

definition ALLOWED_ATTRIBUTES :: "js_string \<rightharpoonup> js_string list" where
  "ALLOWED_ATTRIBUTES = Map.empty"

text \<open>\<^verbatim>\<open>String.prototype.trim\<close> and \<^verbatim>\<open>startsWith\<close>.\<close>

definition trim :: "js_string \<Rightarrow> js_string" where
  "trim s = rev (dropWhile is_js_whitespace (rev (dropWhile is_js_whitespace s)))"

definition startsWith :: "js_string \<Rightarrow> js_string \<Rightarrow> bool" where
  "startsWith s prefix \<longleftrightarrow> take (length prefix) s = prefix"

text \<open>\<^verbatim>\<open>String.prototype.toLowerCase\<close> follows the Unicode case mappings; it is the
  parameter \<open>lower\<close> of the functions below.\<close>

definition isAttributeValueSafe ::
  "(js_string \<Rightarrow> js_string) \<Rightarrow> js_string \<Rightarrow> js_string \<Rightarrow> bool" where
  "isAttributeValueSafe lower attr v =
     (if v = [] then True
      else
        (let lowerValue = trim (lower v) in
         \<not> list_ex (startsWith lowerValue) [js ''javascript:'', js ''data:'', js ''vbscript:'']))"

text \<open>The loop over \<^verbatim>\<open>allowedAttrs\<close>.\<close>

fun copy_attributes ::
  "(js_string \<Rightarrow> js_string) \<Rightarrow> js_string list \<Rightarrow> node \<Rightarrow> node \<Rightarrow> node" where
  "copy_attributes lower [] child cleanElement = cleanElement"
| "copy_attributes lower (attr # attrs) child cleanElement =
     copy_attributes lower attrs child
       (case getAttribute child attr of
          None \<Rightarrow> cleanElement
        | Some v \<Rightarrow>
            if isAttributeValueSafe lower attr v then setAttribute cleanElement attr v
            else cleanElement)"

text \<open>
  \<^verbatim>\<open>cleanNode(node)\<close> returns the \<^verbatim>\<open>div\<close> container it creates at its end, holding the
  fragment built by the loop over \<^verbatim>\<open>Array.from(node.childNodes)\<close>; \<open>clean_children\<close> is
  that loop, returning the fragment's children. A child whose \<^verbatim>\<open>nodeType\<close> is neither
  constant is passed over. At both recursive calls the source appends the value
  \<^verbatim>\<open>cleanNode\<close> returned, that is the container element.
\<close>

function cleanNode :: "(js_string \<Rightarrow> js_string) \<Rightarrow> node \<Rightarrow> error + node"
  and clean_children :: "(js_string \<Rightarrow> js_string) \<Rightarrow> node list \<Rightarrow> error + node list" where
  "cleanNode lower node =
     (case childNodes node of
        None \<Rightarrow> Inl TypeError
      | Some children \<Rightarrow>
          (case clean_children lower children of
             Inl e \<Rightarrow> Inl e
           | Inr fragment \<Rightarrow>
               (case createElement (js ''div'') of
                  Inl e \<Rightarrow> Inl e
                | Inr container \<Rightarrow> Inr (appendFragment container fragment))))"
| "clean_children lower [] = Inr []"
| "clean_children lower (child # rest) =
     (if nodeType child = Some TEXT_NODE then
        (case clean_children lower rest of
           Inl e \<Rightarrow> Inl e
         | Inr fragment \<Rightarrow> Inr (createTextNode (textContent child) # fragment))
      else if nodeType child = Some ELEMENT_NODE then
        (case tagName child of
           None \<Rightarrow> Inl TypeError
         | Some name \<Rightarrow>
             (let tag = lower name in
              if tag \<in> set ALLOWED_TAGS then
                (case createElement tag of
                   Inl e \<Rightarrow> Inl e
                 | Inr cleanElement \<Rightarrow>
                     (let allowedAttrs =
                            (case ALLOWED_ATTRIBUTES tag of None \<Rightarrow> [] | Some as \<Rightarrow> as);
                          cleanElement = copy_attributes lower allowedAttrs child cleanElement
                      in
                        case cleanNode lower child of
                          Inl e \<Rightarrow> Inl e
                        | Inr cleanChildren \<Rightarrow>
                            (case clean_children lower rest of
                               Inl e \<Rightarrow> Inl e
                             | Inr fragment \<Rightarrow>
                                 Inr (appendChild cleanElement cleanChildren # fragment))))
              else
                (case cleanNode lower child of
                   Inl e \<Rightarrow> Inl e
                 | Inr cleanChildren \<Rightarrow>
                     (case clean_children lower rest of
                        Inl e \<Rightarrow> Inl e
                      | Inr fragment \<Rightarrow> Inr (cleanChildren # fragment)))))
      else clean_children lower rest)"
  by pat_completeness auto
termination
proof (relation "measure (\<lambda>x. case x of Inl (lower, node) \<Rightarrow> 2 * size node + 1
                                        | Inr (lower, children) \<Rightarrow> 2 * size_list size children)")
  fix lower :: "js_string \<Rightarrow> js_string" and node :: node and children :: "node list"
  assume "childNodes node = Some children"
  then have "size_list size children \<le> size node"
    by (cases node) (auto split: option.splits)
  then show "(Inr (lower, children), Inl (lower, node))
      \<in> measure (\<lambda>x. case x of Inl (lower, node) \<Rightarrow> 2 * size node + 1
                                | Inr (lower, children) \<Rightarrow> 2 * size_list size children)"
    by simp
qed simp_all

declare cleanNode.simps [simp del]

section \<open>The platform's serializer and parser\<close>

text \<open>
  \<^verbatim>\<open>Element.innerHTML\<close> runs the HTML fragment serialization algorithm on the element's
  children: text is escaped unless its parent is one of the raw-text elements, an element
  is written with its attributes, and a void element has neither children nor an end
  tag.
\<close>

definition void_elements :: "js_string list" where
  "void_elements =
     map js [''area'', ''base'', ''basefont'', ''bgsound'', ''br'', ''col'', ''embed'',
             ''frame'', ''hr'', ''img'', ''input'', ''keygen'', ''link'', ''meta'', ''param'',
             ''source'', ''track'', ''wbr'']"

definition raw_text_elements :: "js_string list" where
  "raw_text_elements =
     map js [''style'', ''script'', ''xmp'', ''iframe'', ''noembed'', ''noframes'',
             ''plaintext'', ''noscript'']"

definition escape_text :: "js_string \<Rightarrow> js_string" where
  "escape_text s =
     concat (map (\<lambda>c. if c = of_char CHR ''&'' then js ''&amp;''
                      else if c = 0xA0 then js ''&nbsp;''
                      else if c = of_char CHR ''<'' then js ''&lt;''
                      else if c = of_char CHR ''>'' then js ''&gt;''
                      else [c]) s)"

definition escape_attribute :: "js_string \<Rightarrow> js_string" where
  "escape_attribute s =
     concat (map (\<lambda>c. if c = of_char CHR ''&'' then js ''&amp;''
                      else if c = 0xA0 then js ''&nbsp;''
                      else if c = 0x22 then js ''&quot;''
                      else [c]) s)"

definition serialize_attribute :: "js_string \<times> js_string \<Rightarrow> js_string" where
  "serialize_attribute a = js '' '' @ fst a @ [of_char CHR ''='', 0x22] @ escape_attribute (snd a) @ [0x22]"

fun serialize_node :: "js_string \<Rightarrow> node \<Rightarrow> js_string"
  and serialize_children :: "js_string \<Rightarrow> node list \<Rightarrow> js_string" where
  "serialize_node parent (Text t) =
     (if parent \<in> set raw_text_elements then t else escape_text t)"
| "serialize_node parent (Comment t) = js ''<!--'' @ t @ js ''-->''"
| "serialize_node parent (Element name attrs children) =
     js ''<'' @ name @ concat (map serialize_attribute attrs) @ js ''>'' @
     (if name \<in> set void_elements then []
      else serialize_children name children @ js ''</'' @ name @ js ''>'')"
| "serialize_node parent (Form attrs children sn st sc) =
     js ''<form'' @ concat (map serialize_attribute attrs) @ js ''>'' @
     serialize_children (js ''form'') children @ js ''</form>''"
| "serialize_node parent (Collection c) = []"
| "serialize_children parent [] = []"
| "serialize_children parent (n # ns) = serialize_node parent n @ serialize_children parent ns"

fun innerHTML :: "node \<Rightarrow> js_string" where
  "innerHTML (Element name attrs children) = serialize_children name children"
| "innerHTML (Form attrs children sn st sc) = serialize_children (js ''form'') children"
| "innerHTML _ = []"

text \<open>
  The value of \<^verbatim>\<open>doc.body\<close> for
  \<^verbatim>\<open>doc = new DOMParser().parseFromString(cleaned, 'text/html')\<close> is the parameter
  \<open>parseFromString\<close> of \<open>sanitize\<close>: the HTML parser never throws and always builds a body
  (or a frameset), which \<^verbatim>\<open>doc.body\<close> is unless an element of the document is named
  \<^verbatim>\<open>body\<close>.

  On input without markup the HTML standard fixes the result, which the closed examples
  use. Modelled from the HTML standard (tokenization and the insertion modes from
  ``initial'' to ``in body''): for input that holds none of \<^verbatim>\<open><\<close>, \<^verbatim>\<open>&\<close>, U+0000,
  U+000D and U+FEFF, the leading white space is ignored and the rest, if any, is one text
  node below the body.
\<close>

definition character_data :: "js_string \<Rightarrow> bool" where
  "character_data s \<longleftrightarrow>
     list_all (\<lambda>c. c \<noteq> of_char CHR ''<'' \<and> c \<noteq> of_char CHR ''&'' \<and> c \<noteq> 0x00 \<and> c \<noteq> 0x0D \<and>
                   c \<noteq> 0xFEFF) s"

definition body_of_text :: "js_string \<Rightarrow> node" where
  "body_of_text s =
     Element (js ''body'') []
       (case dropWhile is_ascii_whitespace s of [] \<Rightarrow> [] | c # cs \<Rightarrow> [Text (c # cs)])"

section \<open>sanitizer.js: sanitize\<close>

definition sanitize ::
  "(js_string \<Rightarrow> js_string) \<Rightarrow> (js_string \<Rightarrow> node) \<Rightarrow> js_value \<Rightarrow> error + js_string" where
  "sanitize lower parseFromString html =
     (case html of
        JSString s \<Rightarrow>
          if s = [] then Inr []
          else
            (let cleaned = remove_dangerous_patterns s;
                 body = parseFromString cleaned
             in case cleanNode lower body of
                  Inl e \<Rightarrow> Inl e
                | Inr cleanedBody \<Rightarrow> Inr (innerHTML cleanedBody))
      | _ \<Rightarrow> Inr [])"

section \<open>Vocabulary of the sanitizer claims\<close>

text \<open>Every element of the tree has a tag of the allow-list and no attribute.\<close>

fun only_allowed :: "node \<Rightarrow> bool" where
  "only_allowed (Text t) = True"
| "only_allowed (Element name attrs children) =
     (name \<in> set ALLOWED_TAGS \<and> attrs = [] \<and> list_all only_allowed children)"
| "only_allowed _ = False"

text \<open>\<open>contains_ci p s\<close>: the pattern occurs in \<open>s\<close>, in any ASCII casing.\<close>

fun contains_ci :: "js_string \<Rightarrow> js_string \<Rightarrow> bool" where
  "contains_ci p [] = (match_literal p [] \<noteq> None)"
| "contains_ci p (c # cs) = (match_literal p (c # cs) \<noteq> None \<or> contains_ci p cs)"

text \<open>An invariant of the serialized output: every \<^verbatim>\<open><\<close> is followed by two characters
  that are not \<^verbatim>\<open>sc\<close> in any casing.\<close>

fun tag_open_ok :: "js_string \<Rightarrow> bool" where
  "tag_open_ok [] = True"
| "tag_open_ok (c # cs) =
     ((c = of_char CHR ''<'' \<longrightarrow>
         (case cs of
            a # b # rest \<Rightarrow> \<not> (ascii_upper a = of_char CHR ''S'' \<and> ascii_upper b = of_char CHR ''C'')
          | _ \<Rightarrow> False)) \<and>
      tag_open_ok cs)"






text \<open>A body that holds text nodes and \<^verbatim>\<open>br\<close> elements only.\<close>

fun text_or_break :: "node \<Rightarrow> bool" where
  "text_or_break (Text t) = True"
| "text_or_break (Element name attrs children) = (name = js ''br'' \<and> attrs = [] \<and> children = [])"
| "text_or_break _ = False"

fun text_and_breaks :: "node \<Rightarrow> bool" where
  "text_and_breaks (Element name attrs children) =
     (name = js ''body'' \<and> list_all text_or_break children)"
| "text_and_breaks _ = False"

text \<open>The lower-casing of strings that hold ASCII letters only, for closed examples.\<close>

definition ascii_toLowerCase :: "js_string \<Rightarrow> js_string" where
  "ascii_toLowerCase s = map ascii_lower s"

text \<open>The body the HTML parser builds for
  \<^verbatim>\<open><table><tr><td>cell</td></tr></table>\<close>: the parser inserts the implied \<^verbatim>\<open>tbody\<close>.\<close>

definition table_body :: node where
  "table_body =
     Element (js ''body'') []
       [Element (js ''table'') []
          [Element (js ''tbody'') []
             [Element (js ''tr'') [] [Element (js ''td'') [] [Text (js ''cell'')]]]]]"

text \<open>The bodies the HTML parser builds for \<^verbatim>\<open><b>a</b>\<close> and for
  \<^verbatim>\<open><b><div>a</div></b>\<close>.\<close>

definition bold_body :: node where
  "bold_body = Element (js ''body'') [] [Element (js ''b'') [] [Text (js ''a'')]]"

definition bold_div_body :: node where
  "bold_div_body =
     Element (js ''body'') []
       [Element (js ''b'') [] [Element (js ''div'') [] [Text (js ''a'')]]]"

text \<open>The body the HTML parser builds for
  \<^verbatim>\<open><p class=x>Hello <b>world</b><font color=red>!</font></p>\<close>.\<close>

definition paragraph_body :: node where
  "paragraph_body =
     Element (js ''body'') []
       [Element (js ''p'') [(js ''class'', js ''x'')]
          [Text (js ''Hello ''),
           Element (js ''b'') [] [Text (js ''world'')],
           Element (js ''font'') [(js ''color'', js ''red'')] [Text (js ''!'')]]]"

text \<open>The body the HTML parser builds for \<^verbatim>\<open>a<script >x</script >\<close>, which the
  pattern for script blocks does not match.\<close>

definition script_body :: node where
  "script_body =
     Element (js ''body'') [] [Text (js ''a''), Element (js ''script'') [] [Text (js ''x'')]]"

text \<open>
  The bodies the HTML parser builds for \<^verbatim>\<open><form><input name=tagName>t</form>\<close>,
  \<^verbatim>\<open><form><input name=nodeType>t</form>\<close> and \<^verbatim>\<open><form><input name=childNodes>t</form>\<close>: a
  form holding the control and the text \<^verbatim>\<open>t\<close>. The form is the form owner of the
  \<^verbatim>\<open>input\<close>, so the property of the form that has the name of the control is the
  control; of an \<^verbatim>\<open>input\<close> element \<^verbatim>\<open>Array.from\<close> makes the empty array.
\<close>

definition form_tagName_body :: node where
  "form_tagName_body =
     Element (js ''body'') []
       [Form [] [Element (js ''input'') [(js ''name'', js ''tagName'')] [], Text (js ''t'')]
          False True None]"

definition form_nodeType_body :: node where
  "form_nodeType_body =
     Element (js ''body'') []
       [Form [] [Element (js ''input'') [(js ''name'', js ''nodeType'')] [], Text (js ''t'')]
          True False None]"

definition form_childNodes_body :: node where
  "form_childNodes_body =
     Element (js ''body'') []
       [Form [] [Element (js ''input'') [(js ''name'', js ''childNodes'')] [], Text (js ''t'')]
          False False (Some [])]"

text \<open>The body the HTML parser builds for \<^verbatim>\<open>a > b<br>c\<close>, and for
  \<^verbatim>\<open>a &gt; b<br>c\<close> as well.\<close>

definition text_break_body :: node where
  "text_break_body =
     Element (js ''body'') []
       [Text (js ''a > b''), Element (js ''br'') [] [], Text (js ''c'')]"

text \<open>The HTML parser on \<^verbatim>\<open><body> a\<close> and on input without markup: after the start tag
  of the body the space is character data, and before it the space is ignored.\<close>

definition leading_space_parse :: "js_string \<Rightarrow> node" where
  "leading_space_parse cleaned =
     (if cleaned = js ''<body> a'' then Element (js ''body'') [] [Text (js '' a'')]
      else body_of_text cleaned)"

section \<open>Proofs: the Base64 leg\<close>

lemma js_equals: "js ''='' = [of_char CHR ''='']" "js ''=='' = [of_char CHR ''='', of_char CHR ''='']"
  by (simp_all add: js_def)

lemma distinct_base64_alphabet: "distinct base64_alphabet"
  by (simp add: base64_alphabet_def js_def)

lemma length_base64_alphabet: "length base64_alphabet = 64"
  by (simp add: base64_alphabet_def js_def)

lemma index_of_nth: "distinct xs \<Longrightarrow> i < length xs \<Longrightarrow> index_of xs (xs ! i) = i"
proof (induction xs arbitrary: i)
  case Nil
  then show ?case by simp
next
  case (Cons y ys)
  show ?case
  proof (cases i)
    case 0
    then show ?thesis by simp
  next
    case (Suc j)
    with Cons.prems have "ys ! j \<in> set ys" "y \<notin> set ys" by auto
    then have "ys ! j \<noteq> y" by auto
    with Suc Cons show ?thesis by simp
  qed
qed

lemma char_sextet_sextet_char: "i < 64 \<Longrightarrow> char_sextet (sextet_char i) = i"
  by (simp add: char_sextet_def sextet_char_def index_of_nth distinct_base64_alphabet
      length_base64_alphabet)

lemma sextet_char_in_alphabet: "i < 64 \<Longrightarrow> sextet_char i \<in> set base64_alphabet"
  by (simp add: sextet_char_def length_base64_alphabet)

lemma alphabet_not_whitespace: "c \<in> set base64_alphabet \<Longrightarrow> \<not> is_ascii_whitespace c"
  by (auto simp add: base64_alphabet_def js_def is_ascii_whitespace_def)

lemma alphabet_not_equals: "c \<in> set base64_alphabet \<Longrightarrow> c \<noteq> of_char CHR ''=''"
  by (auto simp add: base64_alphabet_def js_def)

text \<open>Padding removal gives back an unpadded body over the alphabet.\<close>

lemma remove_padding_body:
  assumes body: "set body \<subseteq> set base64_alphabet"
    and k: "k \<le> 2" and len: "(length body + k) mod 4 = 0"
  shows "remove_padding (body @ replicate k (of_char CHR ''='')) = body"
proof -
  have last_ok: "body \<noteq> [] \<Longrightarrow> last body \<noteq> of_char CHR ''=''"
    using body alphabet_not_equals last_in_set by blast
  consider "k = 0" | "k = 1" | "k = 2" using k by linarith
  then show ?thesis
  proof cases
    case 1
    show ?thesis
    proof (cases "body = []")
      case True
      with 1 show ?thesis by (simp add: remove_padding_def js_equals)
    next
      case False
      then obtain xs x where b: "body = xs @ [x]" by (metis append_butlast_last_id)
      with last_ok have "x \<noteq> of_char CHR ''=''" by simp
      with 1 b len show ?thesis by (simp add: remove_padding_def js_equals)
    qed
  next
    case 2
    show ?thesis
    proof (cases "body = []")
      case True
      with 2 len show ?thesis by simp
    next
      case False
      then obtain xs x where b: "body = xs @ [x]" by (metis append_butlast_last_id)
      with last_ok have "x \<noteq> of_char CHR ''=''" by simp
      with 2 b len show ?thesis by (simp add: remove_padding_def js_equals)
    qed
  next
    case 3
    with len show ?thesis by (simp add: remove_padding_def js_equals numeral_2_eq_2)
  qed
qed

lemma atob_padded:
  assumes body: "set body \<subseteq> set base64_alphabet"
    and k: "k \<le> 2" and len: "(length body + k) mod 4 = 0"
  shows "atob (body @ replicate k (of_char CHR ''='')) =
           Inr (map of_nat (decode_sextets (map char_sextet body)))"
proof -
  have "\<not> is_ascii_whitespace (of_char CHR ''='')" by (simp add: is_ascii_whitespace_def)
  moreover have "\<forall>c \<in> set body. \<not> is_ascii_whitespace c"
    using body alphabet_not_whitespace by blast
  ultimately have f: "filter (\<lambda>c. \<not> is_ascii_whitespace c) (body @ replicate k (of_char CHR ''=''))
      = body @ replicate k (of_char CHR ''='')"
    by (simp add: filter_id_conv)
  have "length body mod 4 \<noteq> 1" using k len by presburger
  with f remove_padding_body [OF body k len] body show ?thesis
    by (auto simp add: atob_def Let_def)
qed

text \<open>The encoder's output is a body over the alphabet, followed by at most two padding
  characters, and the body decodes to the bytes.\<close>

lemma base64_encode_shape:
  "\<forall>b \<in> set bs. b < 256 \<Longrightarrow>
   \<exists>body k. base64_encode bs = body @ replicate k (of_char CHR ''='') \<and>
     set body \<subseteq> set base64_alphabet \<and> k \<le> 2 \<and> (length body + k) mod 4 = 0 \<and>
     decode_sextets (map char_sextet body) = bs \<and> (bs \<noteq> [] \<longrightarrow> body \<noteq> [])"
proof (induction bs rule: base64_encode.induct)
  case (1 a b c rest)
  then obtain body k where ih: "base64_encode rest = body @ replicate k (of_char CHR ''='')"
    "set body \<subseteq> set base64_alphabet" "k \<le> 2" "(length body + k) mod 4 = 0"
    "decode_sextets (map char_sextet body) = rest" by auto
  let ?h = "[sextet_char (a div 4), sextet_char ((a mod 4) * 16 + b div 16),
     sextet_char ((b mod 16) * 4 + c div 64), sextet_char (c mod 64)]"
  from 1 have abc: "a < 256" "b < 256" "c < 256" by auto
  have s: "a div 4 < 64" "(a mod 4) * 16 + b div 16 < 64" "(b mod 16) * 4 + c div 64 < 64"
    "c mod 64 < 64"
    using abc by auto
  have "base64_encode (a # b # c # rest) = (?h @ body) @ replicate k (of_char CHR ''='')"
    using ih by simp
  moreover have "set (?h @ body) \<subseteq> set base64_alphabet"
    using ih s by (simp add: sextet_char_in_alphabet)
  moreover have "(length (?h @ body) + k) mod 4 = 0" using ih by simp
  moreover have "decode_sextets (map char_sextet (?h @ body)) = a # b # c # rest"
    using ih s abc by (simp add: char_sextet_sextet_char; arith)
  ultimately show ?case using ih(3)
    by (intro exI [where x = "?h @ body"] exI [where x = k]) simp
next
  case (2 a b)
  let ?h = "[sextet_char (a div 4), sextet_char ((a mod 4) * 16 + b div 16),
     sextet_char ((b mod 16) * 4)]"
  from 2 have ab: "a < 256" "b < 256" by auto
  have s: "a div 4 < 64" "(a mod 4) * 16 + b div 16 < 64" "(b mod 16) * 4 < 64"
    using ab by auto
  have "base64_encode [a, b] = ?h @ replicate 1 (of_char CHR ''='')" by simp
  moreover have "set ?h \<subseteq> set base64_alphabet" using s by (simp add: sextet_char_in_alphabet)
  moreover have "decode_sextets (map char_sextet ?h) = [a, b]"
    using s ab by (simp add: char_sextet_sextet_char; arith)
  moreover have "(length ?h + 1) mod 4 = 0" by simp
  ultimately show ?case
    by (intro exI [where x = "?h"] exI [where x = 1]) simp
next
  case (3 a)
  let ?h = "[sextet_char (a div 4), sextet_char ((a mod 4) * 16)]"
  from 3 have a: "a < 256" by auto
  have s: "a div 4 < 64" "(a mod 4) * 16 < 64" using a by auto
  have "base64_encode [a] = ?h @ replicate 2 (of_char CHR ''='')" by (simp add: numeral_2_eq_2)
  moreover have "set ?h \<subseteq> set base64_alphabet" using s by (simp add: sextet_char_in_alphabet)
  moreover have "decode_sextets (map char_sextet ?h) = [a]"
    using s a by (simp add: char_sextet_sextet_char; arith)
  moreover have "(length ?h + 2) mod 4 = 0" by simp
  ultimately show ?case
    by (intro exI [where x = "?h"] exI [where x = 2]) simp
next
  case 4
  show ?case
    by (intro exI [where x = "[]"] exI [where x = 0]) simp
qed

lemma unat_byte_less: "unat (x :: byte) < 256"
  using unsigned_less [of x, where 'a = nat] by simp

lemma unat_ucast_byte: "unat (ucast (x :: byte) :: code_unit) = unat x"
  using unat_byte_less [of x] by (simp add: unsigned_ucast_eq take_bit_nat_eq_self)

lemma ucast_byte_le: "\<not> 0xFF < (ucast (x :: byte) :: code_unit)"
  using unat_byte_less [of x] by (simp add: word_less_nat_alt unat_ucast_byte)

lemma btoa_bytes:
  "btoa (map ucast (bytes :: byte list)) = Inr (base64_encode (map unat bytes))"
  by (simp add: btoa_def ucast_byte_le comp_def unat_ucast_byte)

lemma unat_bytes_bound: "\<forall>b \<in> set (map unat (bytes :: byte list)). b < 256"
  using unat_byte_less by auto

lemma ucast_ucast_byte: "(ucast (ucast (x :: byte) :: code_unit) :: byte) = x"
  using unat_byte_less [of x]
  by (simp add: word_unat_eq_iff unsigned_ucast_eq unsigned_take_bit_eq take_bit_nat_eq_self)

lemma base64ToArrayBuffer_encode:
  "base64ToArrayBuffer (base64_encode (map unat b)) = Inr b"
proof -
  from base64_encode_shape [OF unat_bytes_bound, of b]
  obtain body k where shape: "base64_encode (map unat b) = body @ replicate k (of_char CHR ''='')"
    "set body \<subseteq> set base64_alphabet" "k \<le> 2" "(length body + k) mod 4 = 0"
    "decode_sextets (map char_sextet body) = map unat b"
    by (elim exE conjE)
  have "atob (base64_encode (map unat b)) = Inr (map of_nat (map unat b))"
    using atob_padded [OF shape(2,3,4)] shape(1,5) by simp
  then show ?thesis
    by (simp add: base64ToArrayBuffer_def ucast_ucast_byte comp_def)
qed

text \<open>
  \<^bold>\<open>C10\<close>. The Base64 helpers are mutually inverse: for every byte sequence \<open>b\<close>,
  \<^verbatim>\<open>arrayBufferToBase64(b)\<close> returns a string, and \<^verbatim>\<open>base64ToArrayBuffer\<close> of that
  string returns exactly \<open>b\<close>.
\<close>

theorem base64_helpers_inverse:
  "\<exists>s. arrayBufferToBase64 b = Inr s \<and> base64ToArrayBuffer s = Inr b"
  by (simp add: arrayBufferToBase64_def btoa_bytes base64ToArrayBuffer_encode)

theorem base64_helpers_inverse_witness:
  "arrayBufferToBase64 [72, 105] = Inr (js ''SGk='') \<and>
   base64ToArrayBuffer (js ''SGk='') = Inr [72, 105]"
  using base64_helpers_inverse [of "[72, 105]"]
  by (auto simp add: arrayBufferToBase64_def btoa_def sextet_char_def base64_alphabet_def js_def)

section \<open>Proofs: the token alphabet\<close>

lemma strip_trailing_equals_body:
  "of_char CHR ''='' \<notin> set xs \<Longrightarrow>
   strip_trailing_equals (xs @ replicate k (of_char CHR ''='')) = xs"
proof (induction xs)
  case Nil
  show ?case by (cases k) (simp_all add: list_all_iff)
next
  case (Cons x xs)
  then show ?case by simp
qed

lemma to_url_safe_append: "to_url_safe (xs @ ys) = to_url_safe xs @ to_url_safe ys"
  by (simp add: to_url_safe_def)

lemma to_url_safe_padding:
  "to_url_safe (replicate k (of_char CHR ''='')) = replicate k (of_char CHR ''='')"
  by (simp add: to_url_safe_def)

lemma to_url_safe_char:
  "c \<in> set base64_alphabet \<Longrightarrow>
   (if c = of_char CHR ''+'' then of_char CHR ''-'' else if c = of_char CHR ''/'' then of_char CHR ''_'' else c) \<in> set token_alphabet"
  by (simp add: base64_alphabet_def token_alphabet_def js_def) (elim disjE; simp)

lemma to_url_safe_alphabet:
  "set body \<subseteq> set base64_alphabet \<Longrightarrow> set (to_url_safe body) \<subseteq> set token_alphabet"
proof (induction body)
  case Nil
  then show ?case by (simp add: to_url_safe_def)
next
  case (Cons c cs)
  then have "set (to_url_safe cs) \<subseteq> set token_alphabet" by simp
  moreover have "to_url_safe (c # cs) =
     (if c = of_char CHR ''+'' then of_char CHR ''-'' else if c = of_char CHR ''/'' then of_char CHR ''_'' else c) # to_url_safe cs"
    by (simp add: to_url_safe_def)
  moreover have "c \<in> set base64_alphabet" using Cons.prems by simp
  ultimately show ?case using to_url_safe_char [of c] by simp
qed

lemma token_alphabet_not_equals: "c \<in> set token_alphabet \<Longrightarrow> c \<noteq> of_char CHR ''=''"
  by (auto simp add: token_alphabet_def js_def)

lemma compress_token:
  assumes "compress gzip text = Inr token" "text \<noteq> []"
  obtains z body k where "gzip (TextEncoder_encode text) = Some z"
    "base64_encode (map unat z) = body @ replicate k (of_char CHR ''='')"
    "set body \<subseteq> set base64_alphabet" "k \<le> 2" "(length body + k) mod 4 = 0"
    "decode_sextets (map char_sextet body) = map unat z" "z \<noteq> [] \<longrightarrow> body \<noteq> []"
    "token = to_url_safe body"
proof -
  from assms obtain z where z: "gzip (TextEncoder_encode text) = Some z"
    by (auto simp add: compress_def split: option.splits)
  from base64_encode_shape [OF unat_bytes_bound, of z]
  obtain body k where shape: "base64_encode (map unat z) = body @ replicate k (of_char CHR ''='')"
    "set body \<subseteq> set base64_alphabet" "k \<le> 2" "(length body + k) mod 4 = 0"
    "decode_sextets (map char_sextet body) = map unat z" "map unat z \<noteq> [] \<longrightarrow> body \<noteq> []"
    by (elim exE conjE)
  have "of_char CHR ''='' \<notin> set (to_url_safe body)"
    using to_url_safe_alphabet [OF shape(2)] token_alphabet_not_equals by blast
  then have "strip_trailing_equals (to_url_safe (base64_encode (map unat z))) = to_url_safe body"
    unfolding shape(1) to_url_safe_append to_url_safe_padding
    by (rule strip_trailing_equals_body)
  with assms z have t: "token = to_url_safe body"
    by (simp add: compress_def arrayBufferToBase64_def btoa_bytes)
  from shape(6) have ne: "z \<noteq> [] \<longrightarrow> body \<noteq> []" by simp
  show thesis by (rule that [OF z shape(1-5) ne t])
qed

text \<open>
  \<^bold>\<open>C9\<close>. Whenever \<^verbatim>\<open>compress\<close> returns a token, every character of the token
  belongs to the URL-fragment-safe alphabet (A-Z, a-z, 0-9, \<^verbatim>\<open>-\<close>, \<^verbatim>\<open>_\<close>), and the token
  holds no padding character \<^verbatim>\<open>=\<close>. This holds whatever the gzip stage produces.
\<close>

theorem compress_token_alphabet:
  assumes "compress gzip text = Inr token"
  shows "set token \<subseteq> set token_alphabet \<and> of_char CHR ''='' \<notin> set token"
proof (cases "text = []")
  case True
  with assms show ?thesis by (simp add: compress_def)
next
  case False
  from compress_token [OF assms False] obtain body where
    "set body \<subseteq> set base64_alphabet" "token = to_url_safe body" by metis
  then have "set token \<subseteq> set token_alphabet" by (simp add: to_url_safe_alphabet)
  then show ?thesis using token_alphabet_not_equals by blast
qed

section \<open>Proofs: padding and the Base64 stage of decompress\<close>

lemma add_padding_step:
  "length s mod 4 \<noteq> 0 \<Longrightarrow> add_padding s = add_padding (s @ [of_char CHR ''=''])"
  by (subst add_padding.simps) (simp add: js_equals)

lemma add_padding_0: "length s mod 4 = 0 \<Longrightarrow> add_padding s = s"
  by (subst add_padding.simps) simp

lemma mod4_Suc:
  "n mod 4 = 1 \<Longrightarrow> Suc n mod 4 = 2"
  "n mod 4 = 2 \<Longrightarrow> Suc n mod 4 = 3"
  "n mod 4 = 3 \<Longrightarrow> Suc n mod 4 = 0"
  by (simp_all add: mod_Suc)

lemma add_padding_3:
  assumes "length s mod 4 = 3"
  shows "add_padding s = s @ replicate 1 (of_char CHR ''='')"
proof -
  let ?e = "of_char CHR ''='' :: code_unit"
  have a: "length (s @ [?e]) mod 4 = 0"
    unfolding length_append_singleton using assms by (rule mod4_Suc)
  have "length s mod 4 \<noteq> 0" unfolding assms by simp
  then have "add_padding s = add_padding (s @ [?e])" by (rule add_padding_step)
  also have "\<dots> = s @ [?e]" using a by (rule add_padding_0)
  finally show ?thesis by simp
qed

lemma add_padding_2:
  assumes "length s mod 4 = 2"
  shows "add_padding s = s @ replicate 2 (of_char CHR ''='')"
proof -
  let ?e = "of_char CHR ''='' :: code_unit"
  have a: "length (s @ [?e]) mod 4 = 3"
    unfolding length_append_singleton using assms by (rule mod4_Suc)
  have "length s mod 4 \<noteq> 0" unfolding assms by simp
  then have "add_padding s = add_padding (s @ [?e])" by (rule add_padding_step)
  also have "\<dots> = (s @ [?e]) @ replicate 1 ?e" using a by (rule add_padding_3)
  finally show ?thesis by (simp add: numeral_2_eq_2)
qed

lemma add_padding_1:
  assumes "length s mod 4 = 1"
  shows "add_padding s = s @ replicate 3 (of_char CHR ''='')"
proof -
  let ?e = "of_char CHR ''='' :: code_unit"
  have a: "length (s @ [?e]) mod 4 = 2"
    unfolding length_append_singleton using assms by (rule mod4_Suc)
  have "length s mod 4 \<noteq> 0" unfolding assms by simp
  then have "add_padding s = add_padding (s @ [?e])" by (rule add_padding_step)
  also have "\<dots> = (s @ [?e]) @ replicate 2 ?e" using a by (rule add_padding_2)
  finally show ?thesis by (simp add: numeral_3_eq_3 numeral_2_eq_2)
qed

lemma from_url_safe_char:
  "c \<in> set token_alphabet \<Longrightarrow>
   (if c = of_char CHR ''-'' then of_char CHR ''+'' else if c = of_char CHR ''_'' then of_char CHR ''/'' else c) \<in> set base64_alphabet"
  by (simp add: base64_alphabet_def token_alphabet_def js_def) (elim disjE; simp)

lemma from_url_safe_alphabet:
  "set t \<subseteq> set token_alphabet \<Longrightarrow> set (from_url_safe t) \<subseteq> set base64_alphabet"
proof (induction t)
  case Nil
  then show ?case by (simp add: from_url_safe_def)
next
  case (Cons c cs)
  then have "set (from_url_safe cs) \<subseteq> set base64_alphabet" by simp
  moreover have "from_url_safe (c # cs) =
     (if c = of_char CHR ''-'' then of_char CHR ''+'' else if c = of_char CHR ''_'' then of_char CHR ''/'' else c) # from_url_safe cs"
    by (simp add: from_url_safe_def)
  moreover have "c \<in> set token_alphabet" using Cons.prems by simp
  ultimately show ?case using from_url_safe_char [of c] by simp
qed

lemma length_from_url_safe: "length (from_url_safe t) = length t"
  by (simp add: from_url_safe_def)

lemma from_to_url_safe_char:
  "c \<in> set base64_alphabet \<Longrightarrow> from_url_safe (to_url_safe [c]) = [c]"
  by (simp add: base64_alphabet_def from_url_safe_def to_url_safe_def js_def) (elim disjE; simp)

lemma from_to_url_safe:
  "set body \<subseteq> set base64_alphabet \<Longrightarrow> from_url_safe (to_url_safe body) = body"
proof (induction body)
  case Nil
  then show ?case by (simp add: from_url_safe_def to_url_safe_def)
next
  case (Cons c cs)
  have "from_url_safe (to_url_safe (c # cs)) =
      from_url_safe (to_url_safe [c]) @ from_url_safe (to_url_safe cs)"
    by (simp add: from_url_safe_def to_url_safe_def)
  with Cons show ?case by (simp add: from_to_url_safe_char)
qed

text \<open>A body whose length is 1 modulo 4 cannot be repaired by padding.\<close>

lemma atob_length_1:
  assumes body: "set body \<subseteq> set base64_alphabet" and len: "length body mod 4 = 1"
  shows "atob (body @ replicate 3 (of_char CHR ''='')) = Inl InvalidCharacterError"
proof -
  let ?e = "of_char CHR ''='' :: code_unit"
  have "\<not> is_ascii_whitespace ?e" by (simp add: is_ascii_whitespace_def)
  moreover have "\<forall>c \<in> set body. \<not> is_ascii_whitespace c"
    using body alphabet_not_whitespace by blast
  ultimately have f: "filter (\<lambda>c. \<not> is_ascii_whitespace c) (body @ replicate 3 ?e)
      = body @ replicate 3 ?e"
    by (simp add: filter_id_conv)
  have "(length body + 3) mod 4 = 0" using len by presburger
  then have l4: "length (body @ replicate 3 ?e) mod 4 = 0" by simp
  have r: "body @ replicate 3 ?e = (body @ [?e]) @ [?e, ?e]" by (simp add: numeral_3_eq_3)
  have "remove_padding ((body @ [?e]) @ [?e, ?e]) = body @ [?e]"
    using l4 unfolding r by (simp add: remove_padding_def js_equals)
  then have rp: "remove_padding (body @ replicate 3 ?e) = body @ [?e]" using r by simp
  have "length (body @ [?e]) mod 4 \<noteq> 1" using len by (simp add: mod_Suc)
  moreover have "?e \<notin> set base64_alphabet" using alphabet_not_equals by blast
  ultimately show ?thesis unfolding atob_def f rp by (simp add: Let_def)
qed

lemma mod4_cases:
  obtains "(n::nat) mod 4 = 0" | "n mod 4 = 1" | "n mod 4 = 2" | "n mod 4 = 3"
proof -
  have "n mod 4 < 4" by simp
  then show thesis using that by linarith
qed

lemma mod4_add:
  "(n::nat) mod 4 = 2 \<Longrightarrow> (n + 2) mod 4 = 0"
  "(n::nat) mod 4 = 3 \<Longrightarrow> (n + 1) mod 4 = 0"
  "(n::nat) mod 4 = 0 \<Longrightarrow> (n + 0) mod 4 = 0"
  by (simp_all add: mod_Suc numeral_2_eq_2)

text \<open>A token over the safe alphabet whose length is not 1 modulo 4 is padded to a string
  that \<^verbatim>\<open>atob\<close> accepts.\<close>

lemma atob_add_padding:
  assumes s: "set s \<subseteq> set base64_alphabet" and n1: "length s mod 4 \<noteq> 1"
  shows "atob (add_padding s) = Inr (map of_nat (decode_sextets (map char_sextet s)))"
proof (cases "length s" rule: mod4_cases)
  case 1
  have "atob (s @ replicate 0 (of_char CHR ''='')) =
      Inr (map of_nat (decode_sextets (map char_sextet s)))"
    using s _ mod4_add(3) [OF 1] by (rule atob_padded) simp
  then show ?thesis using add_padding_0 [OF 1] by simp
next
  case 2
  with n1 show ?thesis by simp
next
  case 3
  have "atob (s @ replicate 2 (of_char CHR ''='')) =
      Inr (map of_nat (decode_sextets (map char_sextet s)))"
    using s _ mod4_add(1) [OF 3] by (rule atob_padded) simp
  then show ?thesis unfolding add_padding_2 [OF 3] .
next
  case 4
  have "atob (s @ replicate 1 (of_char CHR ''='')) =
      Inr (map of_nat (decode_sextets (map char_sextet s)))"
    using s _ mod4_add(2) [OF 4] by (rule atob_padded) simp
  then show ?thesis unfolding add_padding_3 [OF 4] .
qed

text \<open>
  \<^bold>\<open>C5\<close>, as amended. For a string \<open>t\<close> over the safe token alphabet: when the length
  of \<open>t\<close> is not 1 modulo 4, the Base64 stage of \<^verbatim>\<open>decompress\<close> succeeds, and
  \<^verbatim>\<open>decompress\<close> fails only if the gzip stage rejects the decoded bytes; when the
  length is 1 modulo 4, no padding repairs the token and \<^verbatim>\<open>decompress\<close> throws.
\<close>

theorem decompress_base64_stage:
  assumes "set t \<subseteq> set token_alphabet"
  shows "(length t mod 4 \<noteq> 1 \<longrightarrow>
            (\<exists>bytes. base64ToArrayBuffer (add_padding (from_url_safe t)) = Inr bytes \<and>
               decompress gunzip t =
                 (if t = [] then Inr []
                  else case gunzip bytes of
                         None \<Rightarrow> Inl DecompressFailed
                       | Some d \<Rightarrow> Inr (Response_text d)))) \<and>
         (length t mod 4 = 1 \<longrightarrow> decompress gunzip t = Inl DecompressFailed)"
proof (intro conjI impI)
  let ?s = "from_url_safe t"
  have s: "set ?s \<subseteq> set base64_alphabet" using assms by (rule from_url_safe_alphabet)
  {
    assume "length t mod 4 \<noteq> 1"
    then have "length ?s mod 4 \<noteq> 1" unfolding length_from_url_safe .
    with s have "atob (add_padding ?s) = Inr (map of_nat (decode_sextets (map char_sextet ?s)))"
      by (rule atob_add_padding)
    then have "base64ToArrayBuffer (add_padding ?s) =
        Inr (map ucast (map of_nat (decode_sextets (map char_sextet ?s)) :: js_string))"
      by (simp add: base64ToArrayBuffer_def)
    then show "\<exists>bytes. base64ToArrayBuffer (add_padding ?s) = Inr bytes \<and>
               decompress gunzip t =
                 (if t = [] then Inr []
                  else case gunzip bytes of
                         None \<Rightarrow> Inl DecompressFailed
                       | Some d \<Rightarrow> Inr (Response_text d))"
      by (simp add: decompress_def split: option.splits)
  }
  {
    assume l1: "length t mod 4 = 1"
    then have "t \<noteq> []" by auto
    from l1 have l1': "length ?s mod 4 = 1" unfolding length_from_url_safe .
    have "atob (add_padding ?s) = Inl InvalidCharacterError"
      unfolding add_padding_1 [OF l1'] using s l1' by (rule atob_length_1)
    with \<open>t \<noteq> []\<close> show "decompress gunzip t = Inl DecompressFailed"
      by (simp add: decompress_def base64ToArrayBuffer_def)
  }
qed

section \<open>Proofs: the text encoding and the round trip\<close>

lemma digits:
  fixes q r n :: nat
  assumes "r < n"
  shows "(q * n + r) div n = q" "(q * n + r) mod n = r"
  using assms by simp_all
lemma m1: "h < 0x20 \<Longrightarrow> (0xC0 + h) mod 0x20 = (h::nat)"
  using digits(2) [of h "0x20" 6] by simp
lemma m2: "l < 0x40 \<Longrightarrow> (0x80 + l) mod 0x40 = (l::nat)"
  using digits(2) [of l "0x40" 2] by simp
lemma m3: "h < 0x10 \<Longrightarrow> (0xE0 + h) mod 0x10 = (h::nat)"
  using digits(2) [of h "0x10" 14] by simp
lemma m4: "h < 0x8 \<Longrightarrow> (0xF0 + h) mod 0x8 = (h::nat)"
  using digits(2) [of h "0x8" 30] by simp

lemma decoder_1:
  assumes "unat b \<le> 0x7F"
  shows "utf8_decoder utf8_initial (b # rest) = unat b # utf8_decoder utf8_initial rest"
  using assms by (simp add: utf8_decoder.simps utf8_initial_def Let_def)

lemma decoder_2:
  assumes "unat b1 = 0xC0 + h" "unat b2 = 0x80 + l" "2 \<le> h" "h < 0x20" "l < 0x40"
  shows "utf8_decoder utf8_initial (b1 # b2 # rest) =
           (h * 0x40 + l) # utf8_decoder utf8_initial rest"
  using assms(3-5) by (simp add: utf8_decoder.simps utf8_initial_def Let_def assms(1,2) m1 m2)

lemma decoder_3:
  assumes "unat b1 = 0xE0 + a" "unat b2 = 0x80 + m" "unat b3 = 0x80 + l"
    "a < 0x10" "m < 0x40" "l < 0x40" "a = 0 \<longrightarrow> 0x20 \<le> m" "a = 0xD \<longrightarrow> m < 0x20"
  shows "utf8_decoder utf8_initial (b1 # b2 # b3 # rest) =
           ((a * 0x40 + m) * 0x40 + l) # utf8_decoder utf8_initial rest"
  using assms(4-8) by (simp add: utf8_decoder.simps utf8_initial_def Let_def assms(1-3) m2 m3) auto

lemma decoder_4:
  assumes "unat b1 = 0xF0 + a" "unat b2 = 0x80 + m" "unat b3 = 0x80 + k" "unat b4 = 0x80 + l"
    "a \<le> 4" "m < 0x40" "k < 0x40" "l < 0x40" "a = 0 \<longrightarrow> 0x10 \<le> m" "a = 4 \<longrightarrow> m < 0x10"
  shows "utf8_decoder utf8_initial (b1 # b2 # b3 # b4 # rest) =
           (((a * 0x40 + m) * 0x40 + k) * 0x40 + l) # utf8_decoder utf8_initial rest"
  using assms(5-10) by (simp add: utf8_decoder.simps utf8_initial_def Let_def assms(1-4) m2 m4) auto

lemma unat_of_nat_byte: "k < 256 \<Longrightarrow> unat (of_nat k :: byte) = k"
  by (simp add: unat_of_nat)

lemma utf8_encode_1:
  assumes "c < 0x80"
  obtains b1 where "utf8_encode_code_point c = [b1]" "unat b1 = c"
proof -
  have u: "unat (of_nat c :: byte) = c" using assms by (intro unat_of_nat_byte) simp
  have e: "utf8_encode_code_point c = [of_nat c]"
    using assms by (simp add: utf8_encode_code_point_def)
  from e u show thesis by (rule that)
qed

lemma utf8_encode_2:
  assumes "0x80 \<le> c" "c < 0x800"
  obtains b1 b2 h l where "utf8_encode_code_point c = [b1, b2]"
    "unat b1 = 0xC0 + h" "unat b2 = 0x80 + l" "2 \<le> h" "h < 0x20" "l < 0x40"
    "h * 0x40 + l = c"
proof -
  define h where "h = c div 0x40"
  define l where "l = c mod 0x40"
  have c: "h * 0x40 + l = c" by (simp add: h_def l_def)
  have l: "l < 0x40" by (simp add: l_def)
  have h: "2 \<le> h" "h < 0x20" using assms c l by linarith+
  define b1 :: byte where "b1 = of_nat (0xC0 + h)"
  define b2 :: byte where "b2 = of_nat (0x80 + l)"
  have u1: "unat b1 = 0xC0 + h" unfolding b1_def using h by (intro unat_of_nat_byte) simp
  have u2: "unat b2 = 0x80 + l" unfolding b2_def using l by (intro unat_of_nat_byte) simp
  have e: "utf8_encode_code_point c = [b1, b2]"
    using assms by (simp add: utf8_encode_code_point_def h_def l_def b1_def b2_def)
  show thesis by (rule that [OF e u1 u2 h l c])
qed

lemma utf8_encode_3:
  assumes "0x800 \<le> c" "c < 0x10000" "\<not> (0xD800 \<le> c \<and> c \<le> 0xDFFF)"
  obtains b1 b2 b3 a m l where "utf8_encode_code_point c = [b1, b2, b3]"
    "unat b1 = 0xE0 + a" "unat b2 = 0x80 + m" "unat b3 = 0x80 + l"
    "a < 0x10" "m < 0x40" "l < 0x40" "a = 0 \<longrightarrow> 0x20 \<le> m" "a = 0xD \<longrightarrow> m < 0x20"
    "(a * 0x40 + m) * 0x40 + l = c"
proof -
  define q where "q = c div 0x40"
  define l where "l = c mod 0x40"
  define a where "a = q div 0x40"
  define m where "m = q mod 0x40"
  have c: "q * 0x40 + l = c" by (simp add: q_def l_def)
  have q: "a * 0x40 + m = q" by (simp add: a_def m_def)
  have l: "l < 0x40" by (simp add: l_def)
  have m: "m < 0x40" by (simp add: m_def)
  have a: "a < 0x10" using assms c q l m by linarith
  have lo: "a = 0 \<longrightarrow> 0x20 \<le> m" using assms c q l m by auto
  have hi: "a = 0xD \<longrightarrow> m < 0x20" using assms c q l m by auto
  have d: "c div 0x1000 = a" unfolding a_def q_def by (simp add: div_mult2_eq [symmetric])
  define b1 :: byte where "b1 = of_nat (0xE0 + a)"
  define b2 :: byte where "b2 = of_nat (0x80 + m)"
  define b3 :: byte where "b3 = of_nat (0x80 + l)"
  have u1: "unat b1 = 0xE0 + a" unfolding b1_def using a by (intro unat_of_nat_byte) simp
  have u2: "unat b2 = 0x80 + m" unfolding b2_def using m by (intro unat_of_nat_byte) simp
  have u3: "unat b3 = 0x80 + l" unfolding b3_def using l by (intro unat_of_nat_byte) simp
  have e: "utf8_encode_code_point c = [b1, b2, b3]"
    using assms(1,2) unfolding utf8_encode_code_point_def d b1_def b2_def b3_def m_def q_def l_def
    by simp
  have c': "(a * 0x40 + m) * 0x40 + l = c" using c q by simp
  show thesis by (rule that [OF e u1 u2 u3 a m l lo hi c'])
qed

lemma utf8_encode_4:
  assumes "0x10000 \<le> c" "c < 0x110000"
  obtains b1 b2 b3 b4 a m k l where "utf8_encode_code_point c = [b1, b2, b3, b4]"
    "unat b1 = 0xF0 + a" "unat b2 = 0x80 + m" "unat b3 = 0x80 + k" "unat b4 = 0x80 + l"
    "a \<le> 4" "m < 0x40" "k < 0x40" "l < 0x40" "a = 0 \<longrightarrow> 0x10 \<le> m" "a = 4 \<longrightarrow> m < 0x10"
    "((a * 0x40 + m) * 0x40 + k) * 0x40 + l = c"
proof -
  define q where "q = c div 0x40"
  define l where "l = c mod 0x40"
  define p where "p = q div 0x40"
  define k where "k = q mod 0x40"
  define a where "a = p div 0x40"
  define m where "m = p mod 0x40"
  have c: "q * 0x40 + l = c" by (simp add: q_def l_def)
  have q: "p * 0x40 + k = q" by (simp add: p_def k_def)
  have p: "a * 0x40 + m = p" by (simp add: a_def m_def)
  have l: "l < 0x40" by (simp add: l_def)
  have k: "k < 0x40" by (simp add: k_def)
  have m: "m < 0x40" by (simp add: m_def)
  have a: "a \<le> 4" using assms c q p l k m by linarith
  have lo: "a = 0 \<longrightarrow> 0x10 \<le> m" using assms c q p l k m by auto
  have hi: "a = 4 \<longrightarrow> m < 0x10" using assms c q p l k m by auto
  have d1: "c div 0x1000 = p" unfolding p_def q_def by (simp add: div_mult2_eq [symmetric])
  have d2: "c div 0x40000 = a" unfolding a_def d1 [symmetric]
    by (simp add: div_mult2_eq [symmetric])
  define b1 :: byte where "b1 = of_nat (0xF0 + a)"
  define b2 :: byte where "b2 = of_nat (0x80 + m)"
  define b3 :: byte where "b3 = of_nat (0x80 + k)"
  define b4 :: byte where "b4 = of_nat (0x80 + l)"
  have u1: "unat b1 = 0xF0 + a" unfolding b1_def using a by (intro unat_of_nat_byte) simp
  have u2: "unat b2 = 0x80 + m" unfolding b2_def using m by (intro unat_of_nat_byte) simp
  have u3: "unat b3 = 0x80 + k" unfolding b3_def using k by (intro unat_of_nat_byte) simp
  have u4: "unat b4 = 0x80 + l" unfolding b4_def using l by (intro unat_of_nat_byte) simp
  have e: "utf8_encode_code_point c = [b1, b2, b3, b4]"
    using assms(1) unfolding utf8_encode_code_point_def d1 d2 b1_def b2_def b3_def b4_def
      m_def k_def q_def l_def
    by simp
  have c': "((a * 0x40 + m) * 0x40 + k) * 0x40 + l = c" using c q p by simp
  show thesis by (rule that [OF e u1 u2 u3 u4 a m k l lo hi c'])
qed

lemma scalar_value_cases:
  assumes "is_scalar_value c"
  obtains "c < 0x80" | "0x80 \<le> c" "c < 0x800"
    | "0x800 \<le> c" "c < 0x10000" "\<not> (0xD800 \<le> c \<and> c \<le> 0xDFFF)"
    | "0x10000 \<le> c" "c < 0x110000"
proof -
  from assms have s: "c < 0x110000" "\<not> (0xD800 \<le> c \<and> c \<le> 0xDFFF)"
    by (simp_all add: is_scalar_value_def)
  consider "c < 0x80" | "0x80 \<le> c" "c < 0x800" | "0x800 \<le> c" "c < 0x10000" | "0x10000 \<le> c"
    by linarith
  then show thesis
  proof cases
    case 1
    then show thesis by (rule that(1))
  next
    case 2
    then show thesis by (rule that(2))
  next
    case 3
    then show thesis using s(2) by (rule that(3))
  next
    case 4
    then show thesis using s(1) by (rule that(4))
  qed
qed

lemma decode_encode:
  assumes "is_scalar_value c"
  shows "utf8_decoder utf8_initial (utf8_encode_code_point c @ rest) =
           c # utf8_decoder utf8_initial rest"
  using assms
proof (cases rule: scalar_value_cases)
  case 1
  then obtain b1 where e: "utf8_encode_code_point c = [b1]" and u: "unat b1 = c"
    by (rule utf8_encode_1)
  have "unat b1 \<le> 0x7F" using 1 u by simp
  then show ?thesis unfolding e using u by (simp add: decoder_1)
next
  case 2
  then obtain b1 b2 h l where e: "utf8_encode_code_point c = [b1, b2]"
    and f: "unat b1 = 0xC0 + h" "unat b2 = 0x80 + l" "2 \<le> h" "h < 0x20" "l < 0x40"
    and c: "h * 0x40 + l = c"
    by (rule utf8_encode_2)
  show ?thesis unfolding e using decoder_2 [OF f, of rest] c by simp
next
  case 3
  then obtain b1 b2 b3 a m l where e: "utf8_encode_code_point c = [b1, b2, b3]"
    and f: "unat b1 = 0xE0 + a" "unat b2 = 0x80 + m" "unat b3 = 0x80 + l"
    "a < 0x10" "m < 0x40" "l < 0x40" "a = 0 \<longrightarrow> 0x20 \<le> m" "a = 0xD \<longrightarrow> m < 0x20"
    and c: "(a * 0x40 + m) * 0x40 + l = c"
    by (rule utf8_encode_3)
  show ?thesis unfolding e using decoder_3 [OF f, of rest] c by simp
next
  case 4
  then obtain b1 b2 b3 b4 a m k l where e: "utf8_encode_code_point c = [b1, b2, b3, b4]"
    and f: "unat b1 = 0xF0 + a" "unat b2 = 0x80 + m" "unat b3 = 0x80 + k" "unat b4 = 0x80 + l"
    "a \<le> 4" "m < 0x40" "k < 0x40" "l < 0x40" "a = 0 \<longrightarrow> 0x10 \<le> m" "a = 4 \<longrightarrow> m < 0x10"
    and c: "((a * 0x40 + m) * 0x40 + k) * 0x40 + l = c"
    by (rule utf8_encode_4)
  show ?thesis unfolding e using decoder_4 [OF f, of rest] c by simp
qed

lemma utf8_decoder_encode:
  "list_all is_scalar_value cps \<Longrightarrow> utf8_decoder utf8_initial (utf8_encode cps) = cps"
proof (induction cps)
  case Nil
  show ?case by (simp add: utf8_encode_def utf8_initial_def utf8_decoder.simps)
next
  case (Cons c cps)
  then have "utf8_decoder utf8_initial (utf8_encode_code_point c @ utf8_encode cps) =
      c # utf8_decoder utf8_initial (utf8_encode cps)"
    by (intro decode_encode) simp
  with Cons show ?case by (simp add: utf8_encode_def)
qed

text \<open>Only U+FEFF is encoded with the three bytes of the byte order mark.\<close>

lemma no_byte_order_mark:
  assumes "is_scalar_value c" "c \<noteq> 0xFEFF"
  shows "take 3 (utf8_encode_code_point c @ rest) \<noteq> [0xEF, 0xBB, 0xBF]"
  using assms(1)
proof (cases rule: scalar_value_cases)
  case 1
  then obtain b1 where e: "utf8_encode_code_point c = [b1]" and u: "unat b1 = c"
    by (rule utf8_encode_1)
  have "b1 \<noteq> 0xEF" using 1 u by auto
  then show ?thesis unfolding e by (cases rest) auto
next
  case 2
  then obtain b1 b2 h l where e: "utf8_encode_code_point c = [b1, b2]"
    and f: "unat b1 = 0xC0 + h" "h < 0x20"
    by (rule utf8_encode_2)
  have "b1 \<noteq> 0xEF" using f by auto
  then show ?thesis unfolding e by (cases rest) auto
next
  case 3
  then obtain b1 b2 b3 a m l where e: "utf8_encode_code_point c = [b1, b2, b3]"
    and f: "unat b1 = 0xE0 + a" "unat b2 = 0x80 + m" "unat b3 = 0x80 + l"
    and c: "(a * 0x40 + m) * 0x40 + l = c"
    by (rule utf8_encode_3)
  have "\<not> (b1 = 0xEF \<and> b2 = 0xBB \<and> b3 = 0xBF)"
  proof
    assume "b1 = 0xEF \<and> b2 = 0xBB \<and> b3 = 0xBF"
    with f have "a = 0xF" "m = 0x3B" "l = 0x3F" by auto
    with c assms(2) show False by simp
  qed
  then show ?thesis unfolding e by auto
next
  case 4
  then obtain b1 b2 b3 b4 a m k l where e: "utf8_encode_code_point c = [b1, b2, b3, b4]"
    and f: "unat b1 = 0xF0 + a"
    by (rule utf8_encode_4)
  have "b1 \<noteq> 0xEF" using f by auto
  then show ?thesis unfolding e by auto
qed

lemma unat_code_unit_less: "unat (c :: code_unit) < 0x10000"
  using unsigned_less [of c, where 'a = nat] by simp

lemma leading_unat: "is_leading_surrogate c \<longleftrightarrow> 0xD800 \<le> unat c \<and> unat c \<le> 0xDBFF"
  by (simp add: is_leading_surrogate_def word_le_nat_alt)

lemma trailing_unat: "is_trailing_surrogate c \<longleftrightarrow> 0xDC00 \<le> unat c \<and> unat c \<le> 0xDFFF"
  by (simp add: is_trailing_surrogate_def word_le_nat_alt)

lemma surrogate_unat: "is_surrogate c \<longleftrightarrow> 0xD800 \<le> unat c \<and> unat c \<le> 0xDFFF"
  unfolding is_surrogate_def leading_unat trailing_unat by auto

lemma utf16_single:
  assumes "\<not> is_surrogate c"
  shows "is_scalar_value (unat c)" "utf16_encode_code_point (unat c) = [c]"
  using assms unat_code_unit_less [of c]
  by (simp_all add: is_scalar_value_def surrogate_unat utf16_encode_code_point_def)

lemma utf16_pair:
  assumes "is_leading_surrogate c" "is_trailing_surrogate d"
  shows "is_scalar_value (surrogate_pair c d)" "0x10000 \<le> surrogate_pair c d"
    "utf16_encode_code_point (surrogate_pair c d) = [c, d]"
proof -
  define a where "a = unat c - 0xD800"
  define b where "b = unat d - 0xDC00"
  have a: "a < 0x400" "0xD800 + a = unat c" using assms unfolding a_def leading_unat by auto
  have b: "b < 0x400" "0xDC00 + b = unat d" using assms unfolding b_def trailing_unat by auto
  have sp: "surrogate_pair c d = 0x10000 + (a * 0x400 + b)"
    by (simp add: surrogate_pair_def a_def b_def)
  show "is_scalar_value (surrogate_pair c d)" unfolding sp is_scalar_value_def using a b by simp
  show "0x10000 \<le> surrogate_pair c d" unfolding sp by simp
  have "(a * 0x400 + b) div 0x400 = a" "(a * 0x400 + b) mod 0x400 = b"
    using b(1) by (rule digits)+
  then have "utf16_encode_code_point (surrogate_pair c d) = [of_nat (unat c), of_nat (unat d)]"
    unfolding sp utf16_encode_code_point_def a(2) [symmetric] b(2) [symmetric] by simp
  then show "utf16_encode_code_point (surrogate_pair c d) = [c, d]" by simp
qed

lemma utf16_roundtrip:
  "isWellFormed x \<Longrightarrow>
   list_all is_scalar_value (to_scalar_values x) \<and>
   concat (map utf16_encode_code_point (to_scalar_values x)) = x"
proof (induction x rule: isWellFormed.induct)
  case (1 c d ds)
  show ?case
  proof (cases "is_leading_surrogate c \<and> is_trailing_surrogate d")
    case True
    with 1 utf16_pair [of c d] show ?thesis by simp
  next
    case False
    with 1 utf16_single [of c] show ?thesis by auto
  qed
next
  case (2 c)
  with utf16_single [of c] show ?case by simp
next
  case 3
  show ?case by simp
qed

lemma to_scalar_values_hd:
  assumes "isWellFormed x" "x \<noteq> []" "take 1 x \<noteq> [0xFEFF]"
  obtains c cs where "to_scalar_values x = c # cs" "c \<noteq> 0xFEFF"
proof (cases x rule: isWellFormed.cases)
  case (1 c d ds)
  show ?thesis
  proof (cases "is_leading_surrogate c \<and> is_trailing_surrogate d")
    case True
    with 1 utf16_pair(2) [of c d] show ?thesis by (intro that [of "surrogate_pair c d" "to_scalar_values ds"]) auto
  next
    case False
    have "unat c \<noteq> 0xFEFF" using assms(3) 1 by (simp add: word_unat_eq_iff)
    with 1 False assms(1) show ?thesis by (intro that [of "unat c" "to_scalar_values (d # ds)"]) auto
  qed
next
  case (2 c)
  have "unat c \<noteq> 0xFEFF" using assms(3) 2 by (simp add: word_unat_eq_iff)
  with 2 assms(1) show ?thesis by (intro that [of "unat c" "[]"]) auto
next
  case 3
  with assms show ?thesis by simp
qed

lemma add_padding_shape:
  assumes "k \<le> 2" "(length s + k) mod 4 = 0"
  shows "add_padding s = s @ replicate k (of_char CHR ''='')"
proof -
  consider "k = 0" | "k = 1" | "k = 2" using assms(1) by linarith
  then show ?thesis
  proof cases
    case 1
    with assms(2) have "length s mod 4 = 0" by simp
    then show ?thesis using 1 by (simp add: add_padding_0)
  next
    case 2
    with assms(2) have "length s mod 4 = 3" by presburger
    then show ?thesis unfolding 2 by (rule add_padding_3)
  next
    case 3
    with assms(2) have "length s mod 4 = 2" by presburger
    then show ?thesis unfolding 3 by (rule add_padding_2)
  qed
qed

lemma Response_text_encode:
  assumes "isWellFormed x" "take 1 x \<noteq> [0xFEFF]"
  shows "Response_text (TextEncoder_encode x) = x"
proof -
  let ?sv = "to_scalar_values x"
  from utf16_roundtrip [OF assms(1)]
  have sv: "list_all is_scalar_value ?sv" and orig: "concat (map utf16_encode_code_point ?sv) = x"
    by simp_all
  have "take 3 (utf8_encode ?sv) \<noteq> [0xEF, 0xBB, 0xBF]"
  proof (cases "x = []")
    case True
    then show ?thesis by (simp add: utf8_encode_def)
  next
    case False
    from to_scalar_values_hd [OF assms(1) False assms(2)]
    obtain c cs where c: "?sv = c # cs" "c \<noteq> 0xFEFF" by blast
    with sv have "is_scalar_value c" by simp
    then have "take 3 (utf8_encode_code_point c @ utf8_encode cs) \<noteq> [0xEF, 0xBB, 0xBF]"
      using c(2) by (rule no_byte_order_mark)
    then show ?thesis unfolding c(1) by (simp add: utf8_encode_def)
  qed
  then have "utf8_decode (utf8_encode ?sv) = ?sv"
    using utf8_decoder_encode [OF sv] by (simp add: utf8_decode_def)
  then show ?thesis using orig by (simp add: Response_text_def TextEncoder_encode_def)
qed

text \<open>
  \<^bold>\<open>C1\<close>, as amended. Let the gzip stages be lossless, the compressing stage never
  producing an empty stream. For every well-formed string \<open>x\<close> (no unpaired surrogate)
  that does not start with U+FEFF, including the empty string and strings with
  characters outside the Basic Multilingual Plane, \<^verbatim>\<open>compress(x)\<close> returns a token and
  \<^verbatim>\<open>decompress\<close> of that token returns \<open>x\<close> exactly.
\<close>

theorem compress_decompress_roundtrip:
  assumes lossless: "\<forall>b. \<exists>z. gzip b = Some z \<and> z \<noteq> [] \<and> gunzip z = Some b"
    and wf: "isWellFormed x" and bom: "take 1 x \<noteq> [0xFEFF]"
  shows "\<exists>t. compress gzip x = Inr t \<and> decompress gunzip t = Inr x"
proof (cases "x = []")
  case True
  then show ?thesis by (simp add: compress_def decompress_def)
next
  case False
  from lossless obtain z where z: "gzip (TextEncoder_encode x) = Some z" "z \<noteq> []"
    "gunzip z = Some (TextEncoder_encode x)" by blast
  define t where "t = strip_trailing_equals (to_url_safe (base64_encode (map unat z)))"
  have c: "compress gzip x = Inr t"
    using False z(1) by (simp add: compress_def arrayBufferToBase64_def btoa_bytes t_def)
  from compress_token [OF c False] obtain z' body k where
    s: "gzip (TextEncoder_encode x) = Some z'"
    "base64_encode (map unat z') = body @ replicate k (of_char CHR ''='')"
    "set body \<subseteq> set base64_alphabet" "k \<le> 2" "(length body + k) mod 4 = 0"
    "z' \<noteq> [] \<longrightarrow> body \<noteq> []" "t = to_url_safe body"
    by metis
  from s(1) z(1) have zz: "z' = z" by simp
  have "body \<noteq> []" using s(6) z(2) zz by simp
  then have tne: "t \<noteq> []" unfolding s(7) by (simp add: to_url_safe_def)
  have "from_url_safe t = body" unfolding s(7) using s(3) by (rule from_to_url_safe)
  then have "add_padding (from_url_safe t) = base64_encode (map unat z)"
    using add_padding_shape [OF s(4,5)] s(2) zz by simp
  then have "base64ToArrayBuffer (add_padding (from_url_safe t)) = Inr z"
    by (simp add: base64ToArrayBuffer_encode)
  then have "decompress gunzip t = Inr (Response_text (TextEncoder_encode x))"
    using tne z(3) by (simp add: decompress_def)
  then have "decompress gunzip t = Inr x" using Response_text_encode [OF wf bom] by simp
  with c show ?thesis by blast
qed

section \<open>Proofs: the codec on concrete inputs\<close>

lemma example_gzip_lossless:
  "\<forall>b. \<exists>z. example_gzip b = Some z \<and> z \<noteq> [] \<and> example_gunzip z = Some b"
  by (simp add: example_gzip_def)

lemmas compress_eval =
  compress_def TextEncoder_encode_def utf8_encode_def utf8_encode_code_point_def
  is_surrogate_def is_leading_surrogate_def is_trailing_surrogate_def surrogate_pair_def
  example_gzip_def arrayBufferToBase64_def btoa_def sextet_char_def base64_alphabet_def
  to_url_safe_def js_def

lemmas decompress_eval =
  decompress_def from_url_safe_def base64ToArrayBuffer_def atob_def remove_padding_def
  is_ascii_whitespace_def char_sextet_def base64_alphabet_def js_def Let_def
  Response_text_def utf8_decode_def utf8_decoder.simps utf8_initial_def
  utf16_encode_code_point_def

lemma compress_hi: "compress example_gzip (js ''hi'') = Inr (js ''H4toaQ'')"
  by (simp add: compress_eval)

lemma compress_mixed:
  "compress example_gzip [0x68, 0xE9, 0xD83D, 0xDE00] = Inr (js ''H4tow6nwn5iA'')"
  by (simp add: compress_eval)

lemma replicate_2_3: "replicate 2 x = [x, x]" "replicate 3 x = [x, x, x]"
  by (simp_all add: numeral_2_eq_2 numeral_3_eq_3)

lemma add_padding_A: "add_padding (from_url_safe (js ''A'')) = js ''A===''"
proof -
  have f: "from_url_safe (js ''A'') = js ''A''" by (simp add: from_url_safe_def js_def)
  have "length (js ''A'') mod 4 = 1" by (simp add: js_def)
  then have "add_padding (js ''A'') = js ''A'' @ replicate 3 (of_char CHR ''='')"
    by (rule add_padding_1)
  then show ?thesis unfolding f by (simp add: js_def replicate_2_3)
qed

lemma add_padding_H4toaQ: "add_padding (from_url_safe (js ''H4toaQ'')) = js ''H4toaQ==''"
proof -
  have f: "from_url_safe (js ''H4toaQ'') = js ''H4toaQ''"
    by (simp add: from_url_safe_def js_def)
  have "length (js ''H4toaQ'') mod 4 = 2" by (simp add: js_def)
  then have "add_padding (js ''H4toaQ'') = js ''H4toaQ'' @ replicate 2 (of_char CHR ''='')"
    by (rule add_padding_2)
  then show ?thesis unfolding f by (simp add: js_def replicate_2_3)
qed

lemma add_padding_H4vvv70: "add_padding (from_url_safe (js ''H4vvv70'')) = js ''H4vvv70=''"
proof -
  have f: "from_url_safe (js ''H4vvv70'') = js ''H4vvv70''"
    by (simp add: from_url_safe_def js_def)
  have "length (js ''H4vvv70'') mod 4 = 3" by (simp add: js_def)
  then have "add_padding (js ''H4vvv70'') = js ''H4vvv70'' @ replicate 1 (of_char CHR ''='')"
    by (rule add_padding_3)
  then show ?thesis unfolding f by (simp add: js_def)
qed

lemma add_padding_H4vvu79h: "add_padding (from_url_safe (js ''H4vvu79h'')) = js ''H4vvu79h''"
proof -
  have f: "from_url_safe (js ''H4vvu79h'') = js ''H4vvu79h''"
    by (simp add: from_url_safe_def js_def)
  have "length (js ''H4vvu79h'') mod 4 = 0" by (simp add: js_def)
  then have "add_padding (js ''H4vvu79h'') = js ''H4vvu79h''"
    by (rule add_padding_0)
  then show ?thesis unfolding f .
qed

theorem compress_token_alphabet_witness:
  "compress example_gzip (js ''hi'') = Inr (js ''H4toaQ'') \<and>
   set (js ''H4toaQ'') \<subseteq> set token_alphabet \<and>
   of_char CHR ''='' \<notin> set (js ''H4toaQ'')"
  using compress_token_alphabet [OF compress_hi] compress_hi by simp

theorem decompress_base64_stage_witness:
  "set (js ''H4toaQ'') \<subseteq> set token_alphabet \<and> length (js ''H4toaQ'') mod 4 \<noteq> 1 \<and>
   base64ToArrayBuffer (add_padding (from_url_safe (js ''H4toaQ''))) = Inr [0x1F, 0x8B, 0x68, 0x69] \<and>
   decompress example_gunzip (js ''H4toaQ'') = Inr (js ''hi'') \<and>
   set (js ''AAAAA'') \<subseteq> set token_alphabet \<and> length (js ''AAAAA'') mod 4 = 1 \<and>
   decompress example_gunzip (js ''AAAAA'') = Inl DecompressFailed"
proof -
  have a: "set (js ''H4toaQ'') \<subseteq> set token_alphabet" "set (js ''AAAAA'') \<subseteq> set token_alphabet"
    by (simp_all add: token_alphabet_def js_def)
  have l: "length (js ''H4toaQ'') mod 4 \<noteq> 1" "length (js ''AAAAA'') mod 4 = 1"
    by (simp_all add: js_def)
  have b: "base64ToArrayBuffer (add_padding (from_url_safe (js ''H4toaQ''))) =
      Inr [0x1F, 0x8B, 0x68, 0x69]"
    unfolding add_padding_H4toaQ by (simp add: decompress_eval)
  from decompress_base64_stage [OF a(1), of example_gunzip] l(1) b
  have "decompress example_gunzip (js ''H4toaQ'') = Inr (Response_text [0x68, 0x69])"
    by (simp add: js_def)
  then have d: "decompress example_gunzip (js ''H4toaQ'') = Inr (js ''hi'')"
    by (simp add: decompress_eval)
  from decompress_base64_stage [OF a(2), of example_gunzip] l(2)
  have e: "decompress example_gunzip (js ''AAAAA'') = Inl DecompressFailed" by blast
  from a l b d e show ?thesis by blast
qed

text \<open>The one-character token \<^verbatim>\<open>A\<close> is over the safe alphabet; the padding loop turns it
  into \<^verbatim>\<open>A===\<close>, which \<^verbatim>\<open>atob\<close> rejects, so \<^verbatim>\<open>decompress\<close> throws even when the
  gzip stage would accept any bytes.\<close>

theorem decompress_length_1_counterexample:
  "set (js ''A'') \<subseteq> set token_alphabet \<and>
   add_padding (from_url_safe (js ''A'')) = js ''A==='' \<and>
   atob (js ''A==='') = Inl InvalidCharacterError \<and>
   decompress (\<lambda>bytes. Some bytes) (js ''A'') = Inl DecompressFailed"
proof -
  have a: "set (js ''A'') \<subseteq> set token_alphabet" by (simp add: token_alphabet_def js_def)
  have b: "atob (js ''A==='') = Inl InvalidCharacterError" by (simp add: decompress_eval)
  have "js ''A'' \<noteq> []" by (simp add: js_def)
  then have c: "decompress (\<lambda>bytes. Some bytes) (js ''A'') = Inl DecompressFailed"
    unfolding decompress_def add_padding_A base64ToArrayBuffer_def b by simp
  from a add_padding_A b c show ?thesis by blast
qed

theorem compress_decompress_roundtrip_witness:
  "(\<forall>b. \<exists>z. example_gzip b = Some z \<and> z \<noteq> [] \<and> example_gunzip z = Some b) \<and>
   isWellFormed [0x68, 0xE9, 0xD83D, 0xDE00] \<and>
   take 1 [0x68, 0xE9, 0xD83D, 0xDE00] \<noteq> [0xFEFF :: code_unit] \<and>
   compress example_gzip [0x68, 0xE9, 0xD83D, 0xDE00] = Inr (js ''H4tow6nwn5iA'') \<and>
   decompress example_gunzip (js ''H4tow6nwn5iA'') = Inr [0x68, 0xE9, 0xD83D, 0xDE00]"
proof -
  have w: "isWellFormed [0x68, 0xE9, 0xD83D, 0xDE00]"
    by (simp add: is_surrogate_def is_leading_surrogate_def is_trailing_surrogate_def)
  have t: "take 1 [0x68, 0xE9, 0xD83D, 0xDE00] \<noteq> [0xFEFF :: code_unit]" by simp
  from compress_decompress_roundtrip [OF example_gzip_lossless w t] compress_mixed
  have "decompress example_gunzip (js ''H4tow6nwn5iA'') = Inr [0x68, 0xE9, 0xD83D, 0xDE00]"
    by simp
  with example_gzip_lossless w t compress_mixed show ?thesis by blast
qed

text \<open>Two strings that do not survive the round trip: an unpaired surrogate comes back as
  U+FFFD, and a leading U+FEFF is dropped by the decoder. Both are lost between
  \<^verbatim>\<open>TextEncoder.encode\<close> and \<^verbatim>\<open>Response.text\<close>, whatever the gzip stage.\<close>

theorem compress_decompress_counterexample:
  "Response_text (TextEncoder_encode [0xD800]) = [0xFFFD] \<and>
   compress example_gzip [0xD800] = Inr (js ''H4vvv70'') \<and>
   decompress example_gunzip (js ''H4vvv70'') = Inr [0xFFFD] \<and>
   Response_text (TextEncoder_encode [0xFEFF, 0x61]) = [0x61] \<and>
   compress example_gzip [0xFEFF, 0x61] = Inr (js ''H4vvu79h'') \<and>
   decompress example_gunzip (js ''H4vvu79h'') = Inr [0x61]"
proof -
  have e: "Response_text (TextEncoder_encode [0xD800]) = [0xFFFD]"
    by (simp add: compress_eval decompress_eval)
  have f: "Response_text (TextEncoder_encode [0xFEFF, 0x61]) = [0x61]"
    by (simp add: compress_eval decompress_eval)
  have a: "compress example_gzip [0xD800] = Inr (js ''H4vvv70'')"
    by (simp add: compress_eval)
  have "js ''H4vvv70'' \<noteq> []" by (simp add: js_def)
  then have b: "decompress example_gunzip (js ''H4vvv70'') = Inr [0xFFFD]"
    unfolding decompress_def add_padding_H4vvv70 by (simp add: decompress_eval)
  have c: "compress example_gzip [0xFEFF, 0x61] = Inr (js ''H4vvu79h'')"
    by (simp add: compress_eval)
  have "js ''H4vvu79h'' \<noteq> []" by (simp add: js_def)
  then have d: "decompress example_gunzip (js ''H4vvu79h'') = Inr [0x61]"
    unfolding decompress_def add_padding_H4vvu79h by (simp add: decompress_eval)
  from a b c d e f show ?thesis by blast
qed

section \<open>Proofs: the sanitizer\<close>

lemma createElement_div: "createElement (js ''div'') = Inr (Element (js ''div'') [] [])"
  by (simp add: createElement_def js_def is_ascii_alpha_def is_ascii_alphanumeric_def
      ascii_lower_def)

lemma div_allowed: "js ''div'' \<in> set ALLOWED_TAGS"
  by (simp add: ALLOWED_TAGS_def)

lemma createElement_allowed:
  "tag \<in> set ALLOWED_TAGS \<Longrightarrow> createElement tag = Inr (Element tag [] [])"
  unfolding ALLOWED_TAGS_def
  by (auto simp add: createElement_def js_def is_ascii_alpha_def is_ascii_alphanumeric_def
      ascii_lower_def)

lemma allowed_attributes_empty:
  "(case ALLOWED_ATTRIBUTES tag of None \<Rightarrow> [] | Some as \<Rightarrow> as) = []"
  by (simp add: ALLOWED_ATTRIBUTES_def)

text \<open>Induction over a tree along the reads of \<open>cleanNode\<close>.\<close>

lemma list_induct_set:
  assumes "Q []" and "\<And>child rest. P child \<Longrightarrow> Q rest \<Longrightarrow> Q (child # rest)"
    and "\<And>n. n \<in> set ns \<Longrightarrow> P n"
  shows "Q ns"
  using assms(3) by (induction ns) (auto intro: assms(1,2))

lemma clean_induct:
  assumes node: "\<And>node. (\<And>children. childNodes node = Some children \<Longrightarrow> Q children) \<Longrightarrow> P node"
    and nil: "Q []"
    and cons: "\<And>child rest. P child \<Longrightarrow> Q rest \<Longrightarrow> Q (child # rest)"
  shows "P n"
proof (induction n)
  case (Text t)
  show ?case by (rule node) (simp add: nil)
next
  case (Element name attrs children)
  have "Q children" using nil cons Element by (rule list_induct_set)
  then show ?case by (intro node) simp
next
  case (Form attrs children sn st sc)
  have c: "Q children" using nil cons Form(1) by (rule list_induct_set)
  show ?case
  proof (cases sc)
    case None
    with c show ?thesis by (intro node) simp
  next
    case (Some controls)
    have "Q controls" using nil cons
    proof (rule list_induct_set)
      fix n assume "n \<in> set controls"
      with Some show "P n" by (intro Form(2) [of controls]) simp_all
    qed
    with Some show ?thesis by (intro node) simp
  qed
next
  case (Comment t)
  show ?case by (rule node) (simp add: nil)
next
  case (Collection c)
  show ?case
  proof (cases c)
    case None
    then show ?thesis by (intro node) simp
  next
    case (Some members)
    have "Q members" using nil cons
    proof (rule list_induct_set)
      fix n assume "n \<in> set members"
      with Some show "P n" by (intro Collection [of members]) simp_all
    qed
    with Some show ?thesis by (intro node) simp
  qed
qed

text \<open>The loop of \<open>cleanNode\<close>, one child at a time.\<close>

lemma clean_children_text:
  assumes "nodeType child = Some TEXT_NODE"
  shows "clean_children lower (child # rest) =
     (case clean_children lower rest of
        Inl e \<Rightarrow> Inl e
      | Inr fragment \<Rightarrow> Inr (Text (textContent child) # fragment))"
  using assms by (simp add: createTextNode_def split: sum.splits)

lemma clean_children_skip:
  assumes "nodeType child \<noteq> Some TEXT_NODE" "nodeType child \<noteq> Some ELEMENT_NODE"
  shows "clean_children lower (child # rest) = clean_children lower rest"
  using assms by simp

lemma clean_children_type_error:
  assumes "nodeType child = Some ELEMENT_NODE" "tagName child = None"
  shows "clean_children lower (child # rest) = Inl TypeError"
  using assms by (simp add: TEXT_NODE_def ELEMENT_NODE_def)

lemma clean_children_element:
  assumes "nodeType child = Some ELEMENT_NODE" "tagName child = Some name"
  shows "clean_children lower (child # rest) =
     (case cleanNode lower child of
        Inl e \<Rightarrow> Inl e
      | Inr cleanChildren \<Rightarrow>
          (case clean_children lower rest of
             Inl e \<Rightarrow> Inl e
           | Inr fragment \<Rightarrow>
               Inr ((if lower name \<in> set ALLOWED_TAGS
                     then Element (lower name) [] [cleanChildren] else cleanChildren) # fragment)))"
  using assms
  by (simp add: TEXT_NODE_def ELEMENT_NODE_def Let_def createElement_allowed
      allowed_attributes_empty split: sum.splits)

declare clean_children.simps(2) [simp del]

lemma cleanNode_children:
  "cleanNode lower node =
     (case childNodes node of
        None \<Rightarrow> Inl TypeError
      | Some children \<Rightarrow>
          (case clean_children lower children of
             Inl e \<Rightarrow> Inl e
           | Inr fragment \<Rightarrow> Inr (Element (js ''div'') [] fragment)))"
  by (simp add: cleanNode.simps createElement_div split: option.splits sum.splits)

lemma nodeType_cases:
  obtains (is_text) "nodeType child = Some TEXT_NODE"
  | (throws) "nodeType child = Some ELEMENT_NODE" "tagName child = None"
  | (element) name where "nodeType child = Some ELEMENT_NODE" "tagName child = Some name"
  | (skip) "nodeType child \<noteq> Some TEXT_NODE" "nodeType child \<noteq> Some ELEMENT_NODE"
  by (cases "tagName child") auto

text \<open>Whatever the reads yield, a cleaned tree holds allowed tags only and no attribute.\<close>

lemma cleanNode_only_allowed:
  "\<forall>c. cleanNode lower n = Inr c \<longrightarrow>
     only_allowed c \<and> (\<exists>children. c = Element (js ''div'') [] children)"
proof (rule clean_induct [where Q = "\<lambda>ns. \<forall>f. clean_children lower ns = Inr f \<longrightarrow>
    list_all only_allowed f"])
  fix node
  assume "\<And>children. childNodes node = Some children \<Longrightarrow>
    \<forall>f. clean_children lower children = Inr f \<longrightarrow> list_all only_allowed f"
  then show "\<forall>c. cleanNode lower node = Inr c \<longrightarrow>
     only_allowed c \<and> (\<exists>children. c = Element (js ''div'') [] children)"
    by (auto simp add: cleanNode_children div_allowed split: option.splits sum.splits)
next
  show "\<forall>f. clean_children lower [] = Inr f \<longrightarrow> list_all only_allowed f" by simp
next
  fix child rest
  assume c: "\<forall>c. cleanNode lower child = Inr c \<longrightarrow>
     only_allowed c \<and> (\<exists>children. c = Element (js ''div'') [] children)"
    and r: "\<forall>f. clean_children lower rest = Inr f \<longrightarrow> list_all only_allowed f"
  show "\<forall>f. clean_children lower (child # rest) = Inr f \<longrightarrow> list_all only_allowed f"
  proof (cases child rule: nodeType_cases)
    case is_text
    with r show ?thesis by (auto simp add: clean_children_text split: sum.splits)
  next
    case throws
    then show ?thesis by (simp add: clean_children_type_error)
  next
    case (element name)
    with c r show ?thesis by (auto simp add: clean_children_element split: sum.splits)
  next
    case skip
    with r show ?thesis by (simp add: clean_children_skip)
  qed
qed

lemma tag_open_ok_append: "tag_open_ok a \<Longrightarrow> tag_open_ok b \<Longrightarrow> tag_open_ok (a @ b)"
proof (induction a)
  case Nil
  then show ?case by simp
next
  case (Cons c cs)
  then show ?case by (cases cs; cases "tl cs") auto
qed

lemma tag_open_ok_no_lt: "of_char CHR ''<'' \<notin> set s \<Longrightarrow> tag_open_ok s"
  by (induction s) auto

lemma escape_text_no_lt: "of_char CHR ''<'' \<notin> set (escape_text t)"
  by (induction t) (auto simp add: escape_text_def js_def)

lemma allowed_not_raw_text: "p \<in> set ALLOWED_TAGS \<Longrightarrow> p \<notin> set raw_text_elements"
  unfolding ALLOWED_TAGS_def raw_text_elements_def
  by (auto simp add: js_def)

lemma start_tag_ok:
  "name \<in> set ALLOWED_TAGS \<Longrightarrow> tag_open_ok (js ''<'' @ name @ js ''>'')"
  unfolding ALLOWED_TAGS_def
  by (auto simp add: js_def ascii_upper_def)

lemma end_tag_ok:
  "name \<in> set ALLOWED_TAGS \<Longrightarrow> tag_open_ok (js ''</'' @ name @ js ''>'')"
  unfolding ALLOWED_TAGS_def
  by (auto simp add: js_def ascii_upper_def)

lemma serialize_ok:
  "only_allowed n \<Longrightarrow> parent \<in> set ALLOWED_TAGS \<Longrightarrow> tag_open_ok (serialize_node parent n)"
  "list_all only_allowed ns \<Longrightarrow> parent \<in> set ALLOWED_TAGS \<Longrightarrow>
     tag_open_ok (serialize_children parent ns)"
proof (induction parent n and parent ns rule: serialize_node_serialize_children.induct)
  case (1 parent t)
  have "tag_open_ok (escape_text t)" using escape_text_no_lt by (rule tag_open_ok_no_lt)
  with 1 show ?case by (simp add: allowed_not_raw_text)
next
  case (2 parent t)
  then show ?case by simp
next
  case (3 parent name attrs children)
  then have name: "name \<in> set ALLOWED_TAGS" and attrs: "attrs = []"
    and kids: "list_all only_allowed children" by simp_all
  have s: "tag_open_ok (js ''<'' @ name @ js ''>'')" using name by (rule start_tag_ok)
  show ?case
  proof (cases "name \<in> set void_elements")
    case True
    with s attrs show ?thesis by simp
  next
    case False
    have k: "tag_open_ok (serialize_children name children)"
      using 3(1) [OF False kids name] .
    have e: "tag_open_ok (js ''</'' @ name @ js ''>'')" using name by (rule end_tag_ok)
    have "tag_open_ok ((js ''<'' @ name @ js ''>'') @ serialize_children name children @
        (js ''</'' @ name @ js ''>''))"
      by (rule tag_open_ok_append [OF s tag_open_ok_append [OF k e]])
    with False attrs show ?thesis by simp
  qed
next
  case (4 parent attrs children sn st sc)
  then show ?case by simp
next
  case (5 parent c)
  then show ?case by simp
next
  case (6 parent)
  show ?case by simp
next
  case (7 parent n ns)
  then show ?case by (simp add: tag_open_ok_append)
qed

lemma match_script_needs_sc:
  "match_literal (js ''<script'') (c # cs) \<noteq> None \<Longrightarrow>
   c = of_char CHR ''<'' \<and>
   (case cs of a # b # rest \<Rightarrow> ascii_upper a = of_char CHR ''S'' \<and> ascii_upper b = of_char CHR ''C''
    | _ \<Rightarrow> False)"
  by (cases cs; cases "tl cs")
    (auto simp add: js_def ascii_upper_def split: if_splits)

lemma tag_open_ok_no_script: "tag_open_ok s \<Longrightarrow> \<not> contains_ci (js ''<script'') s"
proof (induction s)
  case Nil
  show ?case by (simp add: js_def)
next
  case (Cons c cs)
  then have "\<not> contains_ci (js ''<script'') cs" by simp
  moreover have "match_literal (js ''<script'') (c # cs) = None"
  proof (rule ccontr)
    assume "match_literal (js ''<script'') (c # cs) \<noteq> None"
    from match_script_needs_sc [OF this] Cons.prems show False
      by (auto split: list.splits)
  qed
  ultimately show ?case by simp
qed

text \<open>What \<open>sanitize\<close> returns for a non-empty string, when it returns.\<close>

lemma sanitize_string:
  assumes "sanitize lower parse (JSString s) = Inr out" "s \<noteq> []"
  obtains children where "out = innerHTML (Element (js ''div'') [] children)"
    "list_all only_allowed children"
proof -
  let ?body = "parse (remove_dangerous_patterns s)"
  from assms obtain c where c: "cleanNode lower ?body = Inr c" "out = innerHTML c"
    by (auto simp add: sanitize_def Let_def split: sum.splits)
  from cleanNode_only_allowed c(1) obtain children
    where d: "only_allowed c" "c = Element (js ''div'') [] children" by blast
  from d have "list_all only_allowed children" by simp
  with c(2) d(2) show thesis by (intro that [of children]) simp_all
qed

lemma sanitize_not_string:
  assumes "\<not> (\<exists>s. html = JSString s \<and> s \<noteq> [])"
  shows "sanitize lower parse html = Inr []"
  using assms by (cases html) (auto simp add: sanitize_def)

text \<open>
  \<^bold>\<open>C2\<close>. Whatever the input and whatever tree the parser builds, the output of
  \<^verbatim>\<open>sanitize\<close> is the serialization of a tree in which every element has a tag of
  \<^verbatim>\<open>ALLOWED_TAGS\<close> and no element carries an attribute.
\<close>

theorem sanitize_allowed_tags_only:
  assumes "sanitize lower parse html = Inr out"
  shows "\<exists>tree. out = innerHTML tree \<and> only_allowed tree"
proof (cases "\<exists>s. html = JSString s \<and> s \<noteq> []")
  case True
  then obtain s where s: "html = JSString s" "s \<noteq> []" by blast
  from assms s(1) have "sanitize lower parse (JSString s) = Inr out" by simp
  from this s(2) obtain children where c: "out = innerHTML (Element (js ''div'') [] children)"
    "list_all only_allowed children" by (rule sanitize_string)
  from c(2) have "only_allowed (Element (js ''div'') [] children)" by (simp add: div_allowed)
  with c(1) show ?thesis by blast
next
  case False
  then have "sanitize lower parse html = Inr []" by (rule sanitize_not_string)
  with assms have "out = []" by simp
  moreover have "innerHTML (Element (js ''div'') [] []) = []" by simp
  moreover have "only_allowed (Element (js ''div'') [] [])" by (simp add: div_allowed)
  ultimately show ?thesis by metis
qed

text \<open>
  \<^bold>\<open>C3\<close>. For every input (with or without a script block), the output of
  \<^verbatim>\<open>sanitize\<close> contains no occurrence of \<^verbatim>\<open><script\<close>, in any casing.
\<close>

theorem sanitize_no_script_tag:
  assumes "sanitize lower parse html = Inr out"
  shows "\<not> contains_ci (js ''<script'') out"
proof -
  have "tag_open_ok out"
  proof (cases "\<exists>s. html = JSString s \<and> s \<noteq> []")
    case True
    then obtain s where s: "html = JSString s" "s \<noteq> []" by blast
    from assms s(1) have "sanitize lower parse (JSString s) = Inr out" by simp
    from this s(2) obtain children where c: "out = innerHTML (Element (js ''div'') [] children)"
      "list_all only_allowed children" by (rule sanitize_string)
    from c(2) have "tag_open_ok (serialize_children (js ''div'') children)"
      using div_allowed by (rule serialize_ok(2))
    with c(1) show ?thesis by simp
  next
    case False
    then have "sanitize lower parse html = Inr []" by (rule sanitize_not_string)
    with assms have "out = []" by simp
    then show ?thesis by simp
  qed
  then show ?thesis by (rule tag_open_ok_no_script)
qed









lemma div_not_raw_text: "js ''div'' \<notin> set raw_text_elements"
  using div_allowed by (rule allowed_not_raw_text)








text \<open>Cleaning a body of text nodes and \<^verbatim>\<open>br\<close> elements gives back what the body
  serializes to.\<close>

lemma tagName_br: "tagName (Element (js ''br'') attrs children) = Some (js ''BR'')"
  by (simp add: js_def ascii_upper_def)

lemma br_allowed: "js ''br'' \<in> set ALLOWED_TAGS"
  by (simp add: ALLOWED_TAGS_def)

lemma br_void: "js ''br'' \<in> set void_elements"
  by (simp add: void_elements_def)

lemma body_not_raw_text: "js ''body'' \<notin> set raw_text_elements"
  unfolding raw_text_elements_def by (auto simp add: js_def)

lemma clean_text_and_breaks:
  assumes "lower (js ''BR'') = js ''br''" "list_all text_or_break ns"
  shows "\<exists>f. clean_children lower ns = Inr f \<and>
     serialize_children (js ''div'') f = serialize_children (js ''body'') ns"
  using assms(2)
proof (induction ns)
  case Nil
  show ?case by simp
next
  case (Cons n ns)
  then obtain f where f: "clean_children lower ns = Inr f"
    "serialize_children (js ''div'') f = serialize_children (js ''body'') ns" by auto
  from Cons.prems have "text_or_break n" by simp
  then show ?case
  proof (cases n)
    case (Text t)
    then have "clean_children lower (n # ns) = Inr (Text t # f)"
      using f(1) by (simp add: clean_children_text TEXT_NODE_def)
    with f(2) Text show ?thesis by (simp add: div_not_raw_text body_not_raw_text)
  next
    case (Element name attrs children)
    with \<open>text_or_break n\<close> have n: "n = Element (js ''br'') [] []" by simp
    have "cleanNode lower n = Inr (Element (js ''div'') [] [])"
      unfolding n by (simp add: cleanNode_children)
    moreover have "nodeType n = Some ELEMENT_NODE" unfolding n by (simp add: ELEMENT_NODE_def)
    moreover have "tagName n = Some (js ''BR'')" unfolding n by (rule tagName_br)
    ultimately have "clean_children lower (n # ns) =
        Inr (Element (js ''br'') [] [Element (js ''div'') [] []] # f)"
      using f(1) assms(1) by (simp add: clean_children_element br_allowed)
    with f(2) n show ?thesis by (simp add: br_void)
  qed simp_all
qed

text \<open>
  \<^bold>\<open>C6\<close>, as amended. Let \<open>y\<close> be the output for \<open>x\<close>. If the pre-filter finds
  nothing in \<open>y\<close>, and the parser reads \<open>y\<close> back as a body of text nodes and \<^verbatim>\<open>br\<close>
  elements that serializes to \<open>y\<close>, then sanitizing \<open>y\<close> returns \<open>y\<close>. (\<^verbatim>\<open>toLowerCase\<close>
  maps \<^verbatim>\<open>BR\<close> to \<^verbatim>\<open>br\<close>.) An output that holds another element than \<^verbatim>\<open>br\<close> gets a
  \<^verbatim>\<open>div\<close> wrapper in each of its elements once more with every call.
\<close>

theorem sanitize_idempotent_text_and_breaks:
  assumes y: "sanitize lower parse (JSString x) = Inr y"
    and rdp: "remove_dangerous_patterns y = y"
    and body: "text_and_breaks (parse y)"
    and serialized: "innerHTML (parse y) = y"
    and br: "lower (js ''BR'') = js ''br''"
  shows "sanitize lower parse (JSString y) = Inr y"
proof (cases "y = []")
  case True
  then show ?thesis by (simp add: sanitize_def)
next
  case False
  from body obtain attrs children where b: "parse y = Element (js ''body'') attrs children"
    "list_all text_or_break children"
    by (cases "parse y") simp_all
  from br b(2) obtain f where f: "clean_children lower children = Inr f"
    "serialize_children (js ''div'') f = serialize_children (js ''body'') children"
    using clean_text_and_breaks by blast
  from b(1) f(1) have "cleanNode lower (parse y) = Inr (Element (js ''div'') [] f)"
    by (simp add: cleanNode_children)
  with False rdp
  have "sanitize lower parse (JSString y) = Inr (serialize_children (js ''div'') f)"
    by (simp add: sanitize_def Let_def)
  also have "serialize_children (js ''div'') f = y" using f(2) b(1) serialized by simp
  finally show ?thesis .
qed

text \<open>Input that the parser gives back as one text node.\<close>

lemma escape_text_Cons:
  "escape_text (c # cs) =
     (if c = of_char CHR ''&'' then js ''&amp;''
      else if c = 0xA0 then js ''&nbsp;''
      else if c = of_char CHR ''<'' then js ''&lt;''
      else if c = of_char CHR ''>'' then js ''&gt;''
      else [c]) @ escape_text cs"
  "escape_text [] = []"
  by (simp_all add: escape_text_def)

lemma cleanNode_body_of_text:
  "cleanNode lower (body_of_text s) =
     Inr (Element (js ''div'') []
            (case dropWhile is_ascii_whitespace s of [] \<Rightarrow> [] | c # cs \<Rightarrow> [Text (c # cs)]))"
proof -
  define d where "d = dropWhile is_ascii_whitespace s"
  show ?thesis unfolding body_of_text_def d_def [symmetric]
    by (cases d) (simp_all add: cleanNode_children clean_children_text TEXT_NODE_def)
qed

lemma sanitize_body_of_text:
  assumes "s \<noteq> []"
    and "parse (remove_dangerous_patterns s) = body_of_text (remove_dangerous_patterns s)"
  shows "sanitize lower parse (JSString s) =
           Inr (escape_text (dropWhile is_ascii_whitespace (remove_dangerous_patterns s)))"
proof -
  define d where "d = dropWhile is_ascii_whitespace (remove_dangerous_patterns s)"
  have "innerHTML (Element (js ''div'') [] (case d of [] \<Rightarrow> [] | c # cs \<Rightarrow> [Text (c # cs)])) =
      escape_text d"
    by (cases d) (simp_all add: div_not_raw_text escape_text_Cons)
  then show ?thesis using assms unfolding d_def
    by (simp add: sanitize_def Let_def cleanNode_body_of_text)
qed

text \<open>When \<^verbatim>\<open>doc.body\<close> is a collection without a member named \<^verbatim>\<open>childNodes\<close>,
  \<^verbatim>\<open>Array.from\<close> throws at the first call of \<^verbatim>\<open>cleanNode\<close>.\<close>

lemma sanitize_body_collection:
  assumes "s \<noteq> []" and "parse (remove_dangerous_patterns s) = Collection None"
  shows "sanitize lower parse (JSString s) = Inl TypeError"
  using assms by (simp add: sanitize_def Let_def cleanNode_children)

section \<open>Proofs: the sanitizer on concrete inputs\<close>

lemmas prefilter_eval =
  remove_dangerous_patterns_def match_script_block_def match_event_handler_def
  is_word_char_def is_js_whitespace_def ascii_upper_def js_def

lemmas clean_eval =
  sanitize_def cleanNode.simps clean_children.simps TEXT_NODE_def ELEMENT_NODE_def
  createTextNode_def Let_def ascii_toLowerCase_def ascii_lower_def ascii_upper_def
  ALLOWED_TAGS_def ALLOWED_ATTRIBUTES_def createElement_def is_ascii_alpha_def
  is_ascii_alphanumeric_def void_elements_def raw_text_elements_def escape_text_def js_def

lemma prefilter_paragraph:
  "remove_dangerous_patterns (js ''<p class=x>Hello <b>world</b><font color=red>!</font></p>'') =
     js ''<p class=x>Hello <b>world</b><font color=red>!</font></p>''"
  by (simp add: prefilter_eval)

lemma prefilter_table:
  "remove_dangerous_patterns (js ''<table><tr><td>cell</td></tr></table>'') =
     js ''<table><tr><td>cell</td></tr></table>''"
  by (simp add: prefilter_eval)

lemma prefilter_script:
  "remove_dangerous_patterns (js ''a<script >x</script >'') = js ''a<script >x</script >''"
  by (simp add: prefilter_eval)

lemma prefilter_metadata:
  "remove_dangerous_patterns (js ''metadata: 42'') = js ''meta 42''"
  by (simp add: prefilter_eval)

lemma prefilter_nested:
  "remove_dangerous_patterns (js ''dadata:ta:'') = js ''data:''"
  "remove_dangerous_patterns (js ''data:'') = []"
  by (simp_all add: prefilter_eval)

lemma prefilter_forms:
  "remove_dangerous_patterns (js ''<form><input name=tagName>t</form>'') =
     js ''<form><input name=tagName>t</form>''"
  "remove_dangerous_patterns (js ''<form><input name=nodeType>t</form>'') =
     js ''<form><input name=nodeType>t</form>''"
  "remove_dangerous_patterns (js ''<form><input name=childNodes>t</form>'') =
     js ''<form><input name=childNodes>t</form>''"
  by (simp_all add: prefilter_eval)

lemma prefilter_text_break:
  "remove_dangerous_patterns (js ''a > b<br>c'') = js ''a > b<br>c''"
  "remove_dangerous_patterns (js ''a &gt; b<br>c'') = js ''a &gt; b<br>c''"
  by (simp_all add: prefilter_eval)

lemma prefilter_leading_space:
  "remove_dangerous_patterns (js ''<body> a'') = js ''<body> a''"
  "remove_dangerous_patterns (js '' a'') = js '' a''"
  by (simp_all add: prefilter_eval)

lemma sanitize_paragraph:
  "sanitize ascii_toLowerCase (\<lambda>cleaned. paragraph_body)
     (JSString (js ''<p class=x>Hello <b>world</b><font color=red>!</font></p>'')) =
   Inr (js ''<p><div>Hello <b><div>world</div></b><div>!</div></div></p>'')"
  by (simp add: paragraph_body_def clean_eval)

lemma sanitize_table:
  "sanitize ascii_toLowerCase (\<lambda>cleaned. table_body)
     (JSString (js ''<table><tr><td>cell</td></tr></table>'')) =
   Inr (js ''<div><div><div><div>cell</div></div></div></div>'')"
  by (simp add: table_body_def clean_eval)

lemma sanitize_script:
  "sanitize ascii_toLowerCase (\<lambda>cleaned. script_body) (JSString (js ''a<script >x</script >'')) =
   Inr (js ''a<div>x</div>'')"
  by (simp add: script_body_def clean_eval)

lemma sanitize_text_examples:
  "sanitize ascii_toLowerCase body_of_text (JSString (js ''metadata: 42'')) = Inr (js ''meta 42'')"
  "sanitize ascii_toLowerCase body_of_text (JSString (js ''dadata:ta:'')) = Inr (js ''data:'')"
  "sanitize ascii_toLowerCase body_of_text (JSString (js ''data:'')) = Inr []"
proof -
  have ne: "js ''metadata: 42'' \<noteq> []" "js ''dadata:ta:'' \<noteq> []" "js ''data:'' \<noteq> []"
    by (simp_all add: js_def)
  show "sanitize ascii_toLowerCase body_of_text (JSString (js ''metadata: 42'')) = Inr (js ''meta 42'')"
    using sanitize_body_of_text [of _ body_of_text ascii_toLowerCase, OF ne(1) refl]
    by (simp add: prefilter_metadata) (simp add: js_def is_ascii_whitespace_def escape_text_def)
  show "sanitize ascii_toLowerCase body_of_text (JSString (js ''dadata:ta:'')) = Inr (js ''data:'')"
    using sanitize_body_of_text [of _ body_of_text ascii_toLowerCase, OF ne(2) refl]
    by (simp add: prefilter_nested) (simp add: js_def is_ascii_whitespace_def escape_text_def)
  show "sanitize ascii_toLowerCase body_of_text (JSString (js ''data:'')) = Inr []"
    using sanitize_body_of_text [of _ body_of_text ascii_toLowerCase, OF ne(3) refl]
    by (simp add: prefilter_nested escape_text_def)
qed

text \<open>The wrapper also grows with every further call: the output for \<^verbatim>\<open><b>a</b>\<close> is
  \<^verbatim>\<open><b><div>a</div></b>\<close>, and sanitizing that gives three nested \<^verbatim>\<open>div\<close>.\<close>

lemma sanitize_bold_twice:
  "sanitize ascii_toLowerCase (\<lambda>cleaned. bold_body) (JSString (js ''<b>a</b>'')) =
     Inr (js ''<b><div>a</div></b>'')"
  "sanitize ascii_toLowerCase (\<lambda>cleaned. bold_div_body) (JSString (js ''<b><div>a</div></b>'')) =
     Inr (js ''<b><div><div><div>a</div></div></div></b>'')"
  by (simp_all add: bold_body_def bold_div_body_def clean_eval)

text \<open>A control named \<^verbatim>\<open>nodeType\<close> makes the loop pass over the form, and a control
  named \<^verbatim>\<open>childNodes\<close> makes it see no child of the form: either way the text in the
  form is not in the output.\<close>

lemma sanitize_shadowed_forms:
  "sanitize ascii_toLowerCase (\<lambda>cleaned. form_nodeType_body)
     (JSString (js ''<form><input name=nodeType>t</form>'')) = Inr []"
  "sanitize ascii_toLowerCase (\<lambda>cleaned. form_childNodes_body)
     (JSString (js ''<form><input name=childNodes>t</form>'')) = Inr (js ''<div></div>'')"
  by (simp_all add: form_nodeType_body_def form_childNodes_body_def clean_eval)

lemma sanitize_form_tagName:
  "sanitize ascii_toLowerCase (\<lambda>cleaned. form_tagName_body)
     (JSString (js ''<form><input name=tagName>t</form>'')) = Inl TypeError"
  by (simp add: form_tagName_body_def clean_eval)

lemma sanitize_text_break:
  "sanitize ascii_toLowerCase (\<lambda>cleaned. text_break_body) (JSString (js ''a > b<br>c'')) =
     Inr (js ''a &gt; b<br>c'')"
  by (simp add: text_break_body_def clean_eval)

lemma sanitize_leading_space:
  "sanitize ascii_toLowerCase leading_space_parse (JSString (js ''<body> a'')) = Inr (js '' a'')"
  "sanitize ascii_toLowerCase leading_space_parse (JSString (js '' a'')) = Inr (js ''a'')"
  unfolding sanitize_def Let_def js_value.case prefilter_leading_space
  by (simp_all add: leading_space_parse_def body_of_text_def is_ascii_whitespace_def
      cleanNode.simps clean_children.simps TEXT_NODE_def ELEMENT_NODE_def createTextNode_def
      createElement_def is_ascii_alpha_def is_ascii_alphanumeric_def ascii_lower_def
      raw_text_elements_def escape_text_def js_def)

theorem sanitize_allowed_tags_only_witness:
  "sanitize ascii_toLowerCase (\<lambda>cleaned. paragraph_body)
     (JSString (js ''<p class=x>Hello <b>world</b><font color=red>!</font></p>'')) =
     Inr (js ''<p><div>Hello <b><div>world</div></b><div>!</div></div></p>'') \<and>
   (\<exists>tree. js ''<p><div>Hello <b><div>world</div></b><div>!</div></div></p>'' = innerHTML tree \<and>
      only_allowed tree)"
  using sanitize_allowed_tags_only [OF sanitize_paragraph] sanitize_paragraph by simp

theorem sanitize_no_script_tag_witness:
  "remove_dangerous_patterns (js ''a<script >x</script >'') = js ''a<script >x</script >'' \<and>
   sanitize ascii_toLowerCase (\<lambda>cleaned. script_body) (JSString (js ''a<script >x</script >'')) =
     Inr (js ''a<div>x</div>'') \<and>
   \<not> contains_ci (js ''<script'') (js ''a<div>x</div>'')"
  using sanitize_no_script_tag [OF sanitize_script] sanitize_script prefilter_script by simp



theorem sanitize_idempotent_text_and_breaks_witness:
  "remove_dangerous_patterns (js ''a > b<br>c'') = js ''a > b<br>c'' \<and>
   sanitize ascii_toLowerCase (\<lambda>cleaned. text_break_body) (JSString (js ''a > b<br>c'')) =
     Inr (js ''a &gt; b<br>c'') \<and>
   remove_dangerous_patterns (js ''a &gt; b<br>c'') = js ''a &gt; b<br>c'' \<and>
   text_and_breaks text_break_body \<and>
   innerHTML text_break_body = js ''a &gt; b<br>c'' \<and>
   ascii_toLowerCase (js ''BR'') = js ''br'' \<and>
   sanitize ascii_toLowerCase (\<lambda>cleaned. text_break_body) (JSString (js ''a &gt; b<br>c'')) =
     Inr (js ''a &gt; b<br>c'')"
proof -
  have b: "text_and_breaks text_break_body" by (simp add: text_break_body_def)
  have s: "innerHTML text_break_body = js ''a &gt; b<br>c''"
    by (simp add: text_break_body_def raw_text_elements_def void_elements_def escape_text_def
        js_def)
  have l: "ascii_toLowerCase (js ''BR'') = js ''br''"
    by (simp add: ascii_toLowerCase_def ascii_lower_def js_def)
  from sanitize_idempotent_text_and_breaks
    [of ascii_toLowerCase "\<lambda>cleaned. text_break_body", OF sanitize_text_break
      prefilter_text_break(2) b s l]
  have "sanitize ascii_toLowerCase (\<lambda>cleaned. text_break_body)
      (JSString (js ''a &gt; b<br>c'')) = Inr (js ''a &gt; b<br>c'')" .
  with prefilter_text_break sanitize_text_break b s l show ?thesis by blast
qed

text \<open>One pass of the pre-filter can assemble a pattern that the next call removes; and
  the parser does not read back an output that begins with white space.\<close>

theorem sanitize_idempotent_counterexample:
  "character_data (js ''dadata:ta:'') \<and>
   sanitize ascii_toLowerCase body_of_text (JSString (js ''dadata:ta:'')) = Inr (js ''data:'') \<and>
   sanitize ascii_toLowerCase body_of_text (JSString (js ''data:'')) = Inr [] \<and>
   js ''data:'' \<noteq> [] \<and>
   remove_dangerous_patterns (js ''<body> a'') = js ''<body> a'' \<and>
   sanitize ascii_toLowerCase leading_space_parse (JSString (js ''<body> a'')) = Inr (js '' a'') \<and>
   sanitize ascii_toLowerCase leading_space_parse (JSString (js '' a'')) = Inr (js ''a'') \<and>
   js '' a'' \<noteq> js ''a''"
proof -
  have "character_data (js ''dadata:ta:'')" by (simp add: character_data_def js_def)
  moreover have "js ''data:'' \<noteq> []" by (simp add: js_def)
  moreover have "js '' a'' \<noteq> js ''a''" by (simp add: js_def)
  ultimately show ?thesis
    using sanitize_text_examples(2,3) prefilter_leading_space(1) sanitize_leading_space by blast
qed

text \<open>
  \<^bold>\<open>C7\<close>. For \<^verbatim>\<open><table><tr><td>cell</td></tr></table>\<close> the pre-filter changes nothing,
  the parser builds \<open>table_body\<close>, and \<^verbatim>\<open>sanitize\<close> returns the cell text inside four
  \<^verbatim>\<open>div\<close> elements, one for each unwrapped element: at each recursive call the source
  appends the container that \<^verbatim>\<open>cleanNode\<close> returns, not the fragment in it. The claim
  expects \<^verbatim>\<open>cell\<close>.
\<close>

theorem unwrap_table_example:
  "remove_dangerous_patterns (js ''<table><tr><td>cell</td></tr></table>'') =
     js ''<table><tr><td>cell</td></tr></table>'' \<and>
   sanitize ascii_toLowerCase (\<lambda>cleaned. table_body)
     (JSString (js ''<table><tr><td>cell</td></tr></table>'')) =
     Inr (js ''<div><div><div><div>cell</div></div></div></div>'')"
  using prefilter_table sanitize_table by blast

text \<open>
  \<^bold>\<open>C8\<close>. For \<^verbatim>\<open><form><input name=tagName>t</form>\<close> the pre-filter changes nothing,
  the parser builds \<open>form_tagName_body\<close>, and \<^verbatim>\<open>sanitize\<close> throws a \<^verbatim>\<open>TypeError\<close>: the
  read \<^verbatim>\<open>child.tagName\<close> at line 84 yields the \<^verbatim>\<open>input\<close> element, which has no method
  \<^verbatim>\<open>toLowerCase\<close>. The claim expects a string for every input string.
\<close>

theorem sanitize_throws_on_form_control:
  "remove_dangerous_patterns (js ''<form><input name=tagName>t</form>'') =
     js ''<form><input name=tagName>t</form>'' \<and>
   sanitize ascii_toLowerCase (\<lambda>cleaned. form_tagName_body)
     (JSString (js ''<form><input name=tagName>t</form>'')) = Inl TypeError"
  using prefilter_forms(1) sanitize_form_tagName by blast

end
